theory Spec2Isabelle
  imports Main "HOL-Library.Word" "HOL-Library.Multiset"
begin

section \<open>Tables\<close>

text \<open>
  The loaders and the client work on polars DataFrames. A DataFrame is an ordered list of
  named columns (Series); every column holds one cell per row. The cells that occur in the
  embedding are nulls, 32-bit and 64-bit signed integers (machine words, so arithmetic
  wraps) and text. Floating-point, date and nested cells are outside the embedding.
\<close>

datatype cell = Null | I32V "32 word" | I64V "64 word" | StrV string

type_synonym series = "cell list"
type_synonym dataframe = "(string \<times> series) list"
type_synonym row_dict = "(string \<times> cell) list"

text \<open>The exceptions that the modelled operations raise.\<close>

datatype py_error =
  ValueError | ColumnNotFoundError | DuplicateError | InvalidOperationError | APIError

text \<open>\<^verbatim>\<open>df.columns\<close>: the column names in order.\<close>

definition columns :: "dataframe \<Rightarrow> string list" where
  "columns df = map fst df"

text \<open>\<^verbatim>\<open>len(df)\<close>: the number of rows; a frame without columns has no rows.\<close>

definition height :: "dataframe \<Rightarrow> nat" where
  "height df = (case df of [] \<Rightarrow> 0 | (_, c) # _ \<Rightarrow> length c)"

text \<open>\<^verbatim>\<open>df.to_dicts()\<close>: one dictionary per row, keys in column order.\<close>

definition to_dicts :: "dataframe \<Rightarrow> row_dict list" where
  "to_dicts df = map (\<lambda>i. map (\<lambda>(n, c). (n, c ! i)) df) [0..<height df]"

section \<open>Batch uploader (\<^verbatim>\<open>SupabaseClient.upload_dataframe\<close>)\<close>

text \<open>
  The remote store is outside the program. One call
  \<^verbatim>\<open>self.client.table(t).insert(batch).execute()\<close> (or \<^verbatim>\<open>upsert\<close>) either returns or
  raises an exception \<^verbatim>\<open>e\<close>; the model of the store is a step function on an arbitrary
  store state that answers \<open>None\<close> (returned) or \<open>Some (str e)\<close> (raised).
\<close>

datatype write_op = Insert | Upsert

type_synonym 's remote = "'s \<Rightarrow> write_op \<Rightarrow> string \<Rightarrow> row_dict list \<Rightarrow> string option \<times> 's"

record batch_error =
  batch :: nat
  error :: string

record upload_stats =
  total_rows :: nat
  uploaded :: nat
  errors :: nat
  error_details :: "batch_error list"

text \<open>
  \<^verbatim>\<open>range(0, stop, step)\<close>: raises \<^verbatim>\<open>ValueError\<close> for a zero step, is empty for a
  negative step (the stop is a length, so never negative), and otherwise counts
  \<open>0, step, 2 * step, ...\<close> below \<open>stop\<close>.
\<close>

definition py_range :: "nat \<Rightarrow> int \<Rightarrow> py_error + nat list" where
  "py_range stop step =
     (if step = 0 then Inl ValueError
      else if step < 0 then Inr []
      else Inr (map (\<lambda>k. k * nat step) [0..<(stop + nat step - 1) div nat step]))"

text \<open>
  The body of the \<^verbatim>\<open>for i in range(...)\<close> loop, run over the offsets in order. The loop
  state is \<open>(uploaded, errors, store)\<close>. The slice \<^verbatim>\<open>records[i : i + batch_size]\<close> is
  \<open>take batch_size (drop i records)\<close>.
\<close>

fun upload_loop ::
  "'s remote \<Rightarrow> write_op \<Rightarrow> string \<Rightarrow> row_dict list \<Rightarrow> nat \<Rightarrow> nat list \<Rightarrow>
   nat \<times> batch_error list \<times> 's \<Rightarrow> nat \<times> batch_error list \<times> 's" where
  "upload_loop rem wop table_name records bs [] st = st"
| "upload_loop rem wop table_name records bs (i # is) (up, errs, s) =
     (let b = take bs (drop i records) in
      case rem s wop table_name b of
        (None, s') \<Rightarrow> upload_loop rem wop table_name records bs is (up + length b, errs, s')
      | (Some e, s') \<Rightarrow>
          upload_loop rem wop table_name records bs is
            (up, errs @ [\<lparr>batch = i, error = e\<rparr>], s'))"

definition upload_dataframe ::
  "'s remote \<Rightarrow> 's \<Rightarrow> dataframe \<Rightarrow> string \<Rightarrow> int \<Rightarrow> bool \<Rightarrow> py_error + (upload_stats \<times> 's)" where
  "upload_dataframe rem s df table_name batch_size upsert =
     (let total = height df;
          records = to_dicts df
      in case py_range total batch_size of
           Inl e \<Rightarrow> Inl e
         | Inr offsets \<Rightarrow>
             (case upload_loop rem (if upsert then Upsert else Insert) table_name records
                     (nat batch_size) offsets (0, [], s) of
                (up, errs, s') \<Rightarrow>
                  Inr (\<lparr>total_rows = total, uploaded = up, errors = length errs,
                        error_details = errs\<rparr>, s')))"

text \<open>
  The reading of the specification: the rows are cut, in their order, into consecutive
  runs of \<open>n\<close> rows (the last run may be shorter), and every run is sent once, in order.
\<close>

fun chunks_fuel :: "nat \<Rightarrow> nat \<Rightarrow> 'a list \<Rightarrow> 'a list list" where
  "chunks_fuel 0 n xs = []"
| "chunks_fuel (Suc f) n xs = (if xs = [] then [] else take n xs # chunks_fuel f n (drop n xs))"

definition chunks :: "nat \<Rightarrow> 'a list \<Rightarrow> 'a list list" where
  "chunks n xs = chunks_fuel (length xs) n xs"

fun attempt_all ::
  "'s remote \<Rightarrow> 's \<Rightarrow> write_op \<Rightarrow> string \<Rightarrow> row_dict list list \<Rightarrow> string option list \<times> 's" where
  "attempt_all rem s wop table_name [] = ([], s)"
| "attempt_all rem s wop table_name (b # bs) =
     (case rem s wop table_name b of
        (r, s') \<Rightarrow> (case attempt_all rem s' wop table_name bs of (rs, s'') \<Rightarrow> (r # rs, s'')))"

text \<open>A store that answers its \<open>k\<close>-th call (from 0) by \<open>script k\<close>; its state counts the calls.\<close>

definition scripted :: "(nat \<Rightarrow> string option) \<Rightarrow> nat remote" where
  "scripted script k wop table_name b = (script k, Suc k)"

text \<open>
  The entries the uploader records for the answers \<open>rs\<close> to the chunks starting at
  \<open>offs\<close>, and the total size of the chunks whose answer satisfies \<open>P\<close>.
\<close>

definition failures :: "nat list \<Rightarrow> string option list \<Rightarrow> batch_error list" where
  "failures offs rs =
     concat (map (\<lambda>(i, r). case r of None \<Rightarrow> [] | Some e \<Rightarrow> [\<lparr>batch = i, error = e\<rparr>]) (zip offs rs))"

definition sizes_where :: "(string option \<Rightarrow> bool) \<Rightarrow> 'a list list \<Rightarrow> string option list \<Rightarrow> nat" where
  "sizes_where P cs rs = sum_list (map (\<lambda>(c, r). length c) (filter (\<lambda>(c, r). P r) (zip cs rs)))"

section \<open>The polars operations used by the loaders\<close>

text \<open>
  Every operation that can raise returns \<open>Inl\<close> of the exception. \<open>and_then\<close> runs the
  next statement only when the previous one returned.
\<close>

definition and_then :: "py_error + 'a \<Rightarrow> ('a \<Rightarrow> py_error + 'b) \<Rightarrow> py_error + 'b" where
  "and_then r f = (case r of Inl e \<Rightarrow> Inl e | Inr x \<Rightarrow> f x)"

text \<open>The invariant of a DataFrame: distinct column names, columns of one length.\<close>

definition wf_df :: "dataframe \<Rightarrow> bool" where
  "wf_df df = (distinct (columns df) \<and> list_all (\<lambda>(n, c). length c = height df) df)"

text \<open>\<^verbatim>\<open>pl.col(c)\<close> evaluated on a frame.\<close>

definition col :: "string \<Rightarrow> dataframe \<Rightarrow> py_error + series" where
  "col c df = (case map_of df c of None \<Rightarrow> Inl ColumnNotFoundError | Some s \<Rightarrow> Inr s)"

text \<open>\<^verbatim>\<open>df.select(names)\<close>: the named columns, in the order of \<open>names\<close>.\<close>

definition select :: "string list \<Rightarrow> dataframe \<Rightarrow> py_error + dataframe" where
  "select names df =
     (if \<not> list_all (\<lambda>c. c \<in> set (columns df)) names then Inl ColumnNotFoundError
      else if \<not> distinct names then Inl DuplicateError
      else Inr (map (\<lambda>c. (c, the (map_of df c))) names))"

text \<open>
  \<^verbatim>\<open>df.rename(mapping)\<close>: every old name must exist; all names are replaced at once, and
  the frame is rebuilt, which raises \<^verbatim>\<open>DuplicateError\<close> when a new name meets a column
  that keeps that name.
\<close>

definition rename :: "(string \<times> string) list \<Rightarrow> dataframe \<Rightarrow> py_error + dataframe" where
  "rename mapping df =
     (if \<not> list_all (\<lambda>(old, new). old \<in> set (columns df)) mapping then Inl ColumnNotFoundError
      else let df' = map (\<lambda>(n, c). (case map_of mapping n of None \<Rightarrow> n | Some n' \<Rightarrow> n', c)) df
           in if distinct (columns df') then Inr df' else Inl DuplicateError)"

text \<open>
  \<^verbatim>\<open>df.with_columns(expr.alias(name))\<close> for an expression with values \<open>s\<close>: a column of
  that name is replaced in place, a new name is appended.
\<close>

definition with_column :: "string \<Rightarrow> series \<Rightarrow> dataframe \<Rightarrow> dataframe" where
  "with_column name s df =
     (if name \<in> set (columns df) then map (\<lambda>(n, c). if n = name then (n, s) else (n, c)) df
      else df @ [(name, s)])"

subsection \<open>Casts\<close>

definition in_int32 :: "int \<Rightarrow> bool" where
  "in_int32 i = (- (2 ^ 31) \<le> i \<and> i < 2 ^ 31)"

definition is_digit :: "char \<Rightarrow> bool" where
  "is_digit ch = (48 \<le> (of_char ch :: nat) \<and> (of_char ch :: nat) \<le> 57)"

definition parse_nat :: "string \<Rightarrow> nat option" where
  "parse_nat s =
     (if s \<noteq> [] \<and> list_all is_digit s
      then Some (foldl (\<lambda>n ch. 10 * n + (of_char ch - 48)) 0 s) else None)"

text \<open>Text is an integer when it is an optional sign followed by decimal digits.\<close>

fun parse_int :: "string \<Rightarrow> int option" where
  "parse_int [] = None"
| "parse_int (ch # s) =
     (if ch = CHR ''-'' then map_option (\<lambda>n. - int n) (parse_nat s)
      else if ch = CHR ''+'' then map_option int (parse_nat s)
      else map_option int (parse_nat (ch # s)))"

text \<open>
  \<^verbatim>\<open>cast(pl.Int32, strict=False)\<close> on one cell: a value that does not fit, and text that
  is not an integer, become null.
\<close>

fun cast_int32 :: "cell \<Rightarrow> cell" where
  "cast_int32 Null = Null"
| "cast_int32 (I32V w) = I32V w"
| "cast_int32 (I64V w) = (if in_int32 (sint w) then I32V (word_of_int (sint w)) else Null)"
| "cast_int32 (StrV s) =
     (case parse_int s of
        None \<Rightarrow> Null
      | Some i \<Rightarrow> if in_int32 i then I32V (word_of_int i) else Null)"

function show_nat :: "nat \<Rightarrow> string" where
  "show_nat n =
     (if n < 10 then [char_of (48 + n)] else show_nat (n div 10) @ [char_of (48 + n mod 10)])"
  by pat_completeness auto
termination
  by (relation "measure (\<lambda>n. n)") auto

definition show_int :: "int \<Rightarrow> string" where
  "show_int i = (if i < 0 then CHR ''-'' # show_nat (nat (- i)) else show_nat (nat i))"

text \<open>\<^verbatim>\<open>cast(pl.Utf8)\<close> on one cell.\<close>

fun cast_utf8 :: "cell \<Rightarrow> cell" where
  "cast_utf8 Null = Null"
| "cast_utf8 (I32V w) = StrV (show_int (sint w))"
| "cast_utf8 (I64V w) = StrV (show_int (sint w))"
| "cast_utf8 (StrV s) = StrV s"

text \<open>\<^verbatim>\<open>df.with_columns(pl.col(c).cast(...))\<close>: the column keeps its name and place.\<close>

definition cast_column :: "(cell \<Rightarrow> cell) \<Rightarrow> string \<Rightarrow> dataframe \<Rightarrow> py_error + dataframe" where
  "cast_column f c df = and_then (col c df) (\<lambda>s. Inr (with_column c (map f s) df))"

text \<open>
  The loop \<^verbatim>\<open>for col in int_cols: if col in result.columns: result = ...\<close>.
\<close>

fun cast_int_columns :: "string list \<Rightarrow> dataframe \<Rightarrow> py_error + dataframe" where
  "cast_int_columns [] df = Inr df"
| "cast_int_columns (c # cs) df =
     (if c \<in> set (columns df)
      then and_then (cast_column cast_int32 c df) (cast_int_columns cs)
      else cast_int_columns cs df)"

subsection \<open>Row filters\<close>

text \<open>Keeping the rows at which the mask holds, in every column.\<close>

definition keep :: "bool list \<Rightarrow> series \<Rightarrow> series" where
  "keep msk s = map snd (filter fst (zip msk s))"

definition filter_rows :: "bool list \<Rightarrow> dataframe \<Rightarrow> dataframe" where
  "filter_rows msk df = map (\<lambda>(n, c). (n, keep msk c)) df"

text \<open>\<^verbatim>\<open>df.filter(pl.col(c).is_not_null())\<close>.\<close>

definition filter_not_null :: "string \<Rightarrow> dataframe \<Rightarrow> py_error + dataframe" where
  "filter_not_null c df =
     and_then (col c df) (\<lambda>s. Inr (filter_rows (map (\<lambda>v. v \<noteq> Null) s) df))"

text \<open>
  \<^verbatim>\<open>df.unique(subset=[c], keep="first")\<close>: of the rows with one key the first stays.
  \<^verbatim>\<open>maintain_order\<close> keeps its default \<^verbatim>\<open>False\<close>, so polars returns the surviving rows
  in an order of its choice: \<open>order\<close> is that choice, a list of row numbers of the
  filtered frame (a choice that is not a permutation of its rows is ignored).
\<close>

fun first_occ :: "cell list \<Rightarrow> cell list \<Rightarrow> bool list" where
  "first_occ seen [] = []"
| "first_occ seen (v # vs) = (v \<notin> set seen) # first_occ (v # seen) vs"

definition take_rows :: "nat list \<Rightarrow> dataframe \<Rightarrow> dataframe" where
  "take_rows p df = map (\<lambda>(n, c). (n, map (\<lambda>i. c ! i) p)) df"

definition unique_first :: "(dataframe \<Rightarrow> nat list) \<Rightarrow> string \<Rightarrow> dataframe \<Rightarrow> py_error + dataframe" where
  "unique_first order c df =
     and_then (col c df) (\<lambda>s.
       let d = filter_rows (first_occ [] s) df; p = order d
       in Inr (if sort p = [0..<height d] then take_rows p d else d))"

subsection \<open>Arithmetic\<close>

text \<open>
  \<^verbatim>\<open>pl.col(c).fill_null(0)\<close> and \<^verbatim>\<open>+\<close> on integer columns. Two 32-bit operands add in
  32 bits, otherwise the sum has 64 bits; both wrap. The literal \<open>0\<close> that fills a null
  is 32 bits wide. Arithmetic on text is outside the embedding: a text column stops the
  expression with \<^verbatim>\<open>InvalidOperationError\<close>.
\<close>

definition numeric :: "series \<Rightarrow> bool" where
  "numeric s = list_all (\<lambda>v. case v of StrV _ \<Rightarrow> False | _ \<Rightarrow> True) s"

fun fill_zero :: "cell \<Rightarrow> cell" where
  "fill_zero Null = I32V 0"
| "fill_zero v = v"

definition col_fill_null_0 :: "string \<Rightarrow> dataframe \<Rightarrow> py_error + series" where
  "col_fill_null_0 c df =
     and_then (col c df) (\<lambda>s. if numeric s then Inr (map fill_zero s) else Inl InvalidOperationError)"

fun add_cells :: "cell \<Rightarrow> cell \<Rightarrow> cell" where
  "add_cells (I32V x) (I32V y) = I32V (x + y)"
| "add_cells (I32V x) (I64V y) = I64V (scast x + y)"
| "add_cells (I64V x) (I32V y) = I64V (x + scast y)"
| "add_cells (I64V x) (I64V y) = I64V (x + y)"
| "add_cells _ _ = Null"

definition add_series :: "series \<Rightarrow> series \<Rightarrow> series" where
  "add_series a b = map (\<lambda>(x, y). add_cells x y) (zip a b)"

text \<open>\<^verbatim>\<open>pl.sum_horizontal(*exprs)\<close>: the expressions are added from left to right.\<close>

fun sum_horizontal :: "series list \<Rightarrow> series" where
  "sum_horizontal [] = []"
| "sum_horizontal (s # ss) = foldl add_series s ss"

fun fill_null_0_all :: "string list \<Rightarrow> dataframe \<Rightarrow> py_error + series list" where
  "fill_null_0_all [] df = Inr []"
| "fill_null_0_all (c # cs) df =
     and_then (col_fill_null_0 c df) (\<lambda>s. and_then (fill_null_0_all cs df) (\<lambda>ss. Inr (s # ss)))"

section \<open>Schema mapper\<close>

subsection \<open>\<^verbatim>\<open>PlayByPlayLoader.prepare_for_upload\<close>\<close>

definition pbp_key_columns :: "string list" where
  "pbp_key_columns =
     [''play_id'', ''game_id'', ''season'', ''week'', ''game_date'', ''posteam'', ''defteam'',
      ''quarter'', ''time'', ''down'', ''ydstogo'', ''yardline_100'', ''play_type'',
      ''yards_gained'', ''epa'', ''wp'', ''wpa'', ''passer_player_name'',
      ''receiver_player_name'', ''rusher_player_name'', ''desc'', ''score_differential'']"

definition pbp_int_columns :: "string list" where
  "pbp_int_columns =
     [''season'', ''week'', ''quarter'', ''down'', ''ydstogo'', ''yardline_100'',
      ''yards_gained'', ''score_differential'']"

definition pbp_prepare_for_upload :: "(dataframe \<Rightarrow> nat list) \<Rightarrow> dataframe \<Rightarrow> py_error + dataframe" where
  "pbp_prepare_for_upload order df =
     (let available_columns = filter (\<lambda>c. c \<in> set (columns df)) pbp_key_columns in
      and_then (select available_columns df) (\<lambda>result.
      and_then (cast_int_columns pbp_int_columns result) (\<lambda>result.
      if ''play_id'' \<in> set (columns result) then unique_first order ''play_id'' result
      else Inr result)))"

subsection \<open>\<^verbatim>\<open>PlayerStatsLoader.prepare_for_upload\<close>\<close>

definition player_schema_columns :: "string list" where
  "player_schema_columns =
     [''player_id'', ''player_name'', ''season'', ''week'', ''team'', ''position'',
      ''completions'', ''attempts'', ''passing_yards'', ''passing_tds'', ''interceptions'',
      ''carries'', ''rushing_yards'', ''rushing_tds'', ''receptions'', ''receiving_yards'',
      ''receiving_tds'', ''targets'', ''fantasy_points'', ''fantasy_points_ppr'']"

definition player_int_cols :: "string list" where
  "player_int_cols =
     [''season'', ''week'', ''completions'', ''attempts'', ''passing_yards'', ''passing_tds'',
      ''interceptions'', ''carries'', ''rushing_yards'', ''rushing_tds'', ''receptions'',
      ''receiving_yards'', ''receiving_tds'', ''targets'']"

definition player_rename_map :: "dataframe \<Rightarrow> (string \<times> string) list" where
  "player_rename_map df =
     (if ''passing_interceptions'' \<in> set (columns df) \<and> ''interceptions'' \<notin> set (columns df)
      then [(''passing_interceptions'', ''interceptions'')] else [])"

definition player_prepare_for_upload :: "dataframe \<Rightarrow> py_error + dataframe" where
  "player_prepare_for_upload df0 =
     and_then (if ''player_id'' \<in> set (columns df0) then filter_not_null ''player_id'' df0
               else Inr df0) (\<lambda>df.
     and_then (if player_rename_map df \<noteq> [] then rename (player_rename_map df) df
               else Inr df) (\<lambda>df.
     and_then (select (filter (\<lambda>c. c \<in> set (columns df)) player_schema_columns) df) (\<lambda>result.
     cast_int_columns player_int_cols result)))"

subsection \<open>\<^verbatim>\<open>PlayerStatsLoader.prepare_player_info_for_upload\<close>\<close>

definition player_info_schema_columns :: "string list" where
  "player_info_schema_columns =
     [''player_id'', ''player_name'', ''position'', ''height'', ''weight'', ''college'',
      ''birth_date'', ''draft_year'', ''draft_round'', ''draft_pick'', ''draft_team'',
      ''gsis_id'', ''espn_id'', ''yahoo_id'']"

definition player_info_int_cols :: "string list" where
  "player_info_int_cols = [''weight'', ''draft_year'', ''draft_round'', ''draft_pick'']"

definition prepare_player_info_for_upload :: "dataframe \<Rightarrow> py_error + dataframe" where
  "prepare_player_info_for_upload df0 =
     and_then (if ''gsis_id'' \<in> set (columns df0) then filter_not_null ''gsis_id'' df0
               else Inr df0) (\<lambda>df.
     and_then (if ''gsis_id'' \<in> set (columns df)
               then and_then (col ''gsis_id'' df) (\<lambda>s. Inr (with_column ''player_id'' s df))
               else Inr df) (\<lambda>df.
     and_then (if ''display_name'' \<in> set (columns df)
               then rename [(''display_name'', ''player_name'')] df else Inr df) (\<lambda>df.
     and_then (select (filter (\<lambda>c. c \<in> set (columns df)) player_info_schema_columns) df)
       (\<lambda>result.
     and_then (cast_int_columns player_info_int_cols result) (\<lambda>result.
     if ''birth_date'' \<in> set (columns result) then cast_column cast_utf8 ''birth_date'' result
     else Inr result)))))"

subsection \<open>\<^verbatim>\<open>TeamDataLoader.prepare_for_upload\<close>\<close>

definition schedules_schema_columns :: "string list" where
  "schedules_schema_columns =
     [''game_id'', ''season'', ''week'', ''game_type'', ''gameday'', ''home_team'',
      ''away_team'', ''home_score'', ''away_score'', ''stadium'', ''location'', ''roof'',
      ''surface'', ''temp'', ''wind'']"

definition schedules_int_cols :: "string list" where
  "schedules_int_cols = [''season'', ''week'', ''home_score'', ''away_score'', ''temp'', ''wind'']"

text \<open>The branch \<^verbatim>\<open>data_type == "schedules"\<close>.\<close>

definition prepare_schedules :: "dataframe \<Rightarrow> py_error + dataframe" where
  "prepare_schedules df0 =
     and_then (select (filter (\<lambda>c. c \<in> set (columns df0)) schedules_schema_columns) df0) (\<lambda>df.
     and_then (if ''gameday'' \<in> set (columns df) then rename [(''gameday'', ''game_date'')] df
               else Inr df) (\<lambda>df.
     cast_int_columns schedules_int_cols df))"

definition rosters_schema_columns :: "string list" where
  "rosters_schema_columns =
     [''player_id'', ''player_name'', ''season'', ''team'', ''position'',
      ''depth_chart_position'', ''jersey_number'', ''status'', ''height'', ''weight'',
      ''birth_date'', ''college'']"

definition rosters_int_cols :: "string list" where
  "rosters_int_cols = [''season'', ''jersey_number'', ''weight'']"

definition rosters_rename_map :: "dataframe \<Rightarrow> (string \<times> string) list" where
  "rosters_rename_map df =
     (if ''gsis_id'' \<in> set (columns df) then [(''gsis_id'', ''player_id'')] else []) @
     (if ''full_name'' \<in> set (columns df) then [(''full_name'', ''player_name'')] else [])"

text \<open>The branch \<^verbatim>\<open>data_type == "rosters"\<close>.\<close>

definition prepare_rosters :: "dataframe \<Rightarrow> py_error + dataframe" where
  "prepare_rosters df0 =
     and_then (if ''gsis_id'' \<in> set (columns df0) then filter_not_null ''gsis_id'' df0
               else Inr df0) (\<lambda>df.
     and_then (if ''birth_date'' \<in> set (columns df) then cast_column cast_utf8 ''birth_date'' df
               else Inr df) (\<lambda>df.
     and_then (if rosters_rename_map df \<noteq> [] then rename (rosters_rename_map df) df
               else Inr df) (\<lambda>df.
     and_then (select (filter (\<lambda>c. c \<in> set (columns df)) rosters_schema_columns) df) (\<lambda>result.
     cast_int_columns rosters_int_cols result))))"

definition info_schema_columns :: "string list" where
  "info_schema_columns =
     [''team_abbr'', ''team_name'', ''team_nick'', ''team_color'', ''team_color2'',
      ''team_logo_espn'', ''team_logo_wikipedia'', ''team_conference'', ''team_division'']"

text \<open>The branch \<^verbatim>\<open>data_type == "info"\<close>.\<close>

definition prepare_info :: "dataframe \<Rightarrow> py_error + dataframe" where
  "prepare_info df = select (filter (\<lambda>c. c \<in> set (columns df)) info_schema_columns) df"

definition stats_schema_columns :: "string list" where
  "stats_schema_columns =
     [''team'', ''season'', ''week'', ''opponent'', ''completions'', ''attempts'',
      ''passing_yards'', ''passing_tds'', ''interceptions'', ''carries'', ''rushing_yards'',
      ''rushing_tds'', ''total_yards'', ''turnovers'', ''points'']"

definition stats_int_cols :: "string list" where
  "stats_int_cols =
     [''season'', ''week'', ''completions'', ''attempts'', ''passing_yards'', ''passing_tds'',
      ''interceptions'', ''carries'', ''rushing_yards'', ''rushing_tds'', ''total_yards'',
      ''turnovers'', ''points'']"

definition turnover_cols :: "dataframe \<Rightarrow> string list" where
  "turnover_cols df =
     (if ''passing_interceptions'' \<in> set (columns df) then [''passing_interceptions''] else []) @
     (if ''rushing_fumbles_lost'' \<in> set (columns df) then [''rushing_fumbles_lost''] else []) @
     (if ''sack_fumbles_lost'' \<in> set (columns df) then [''sack_fumbles_lost''] else [])"

text \<open>The derived columns of the branch \<^verbatim>\<open>data_type == "stats"\<close> (steps 1 and 2).\<close>

definition add_total_yards :: "dataframe \<Rightarrow> py_error + dataframe" where
  "add_total_yards df =
     (if ''passing_yards'' \<in> set (columns df) \<and> ''rushing_yards'' \<in> set (columns df)
      then and_then (col_fill_null_0 ''passing_yards'' df) (\<lambda>p.
           and_then (col_fill_null_0 ''rushing_yards'' df) (\<lambda>r.
           Inr (with_column ''total_yards'' (add_series p r) df)))
      else Inr df)"

definition add_turnovers :: "dataframe \<Rightarrow> py_error + dataframe" where
  "add_turnovers df =
     (if turnover_cols df \<noteq> []
      then and_then (fill_null_0_all (turnover_cols df) df) (\<lambda>ss.
           Inr (with_column ''turnovers'' (sum_horizontal ss) df))
      else Inr df)"

text \<open>The branch \<^verbatim>\<open>data_type == "stats"\<close>.\<close>

definition prepare_stats :: "dataframe \<Rightarrow> py_error + dataframe" where
  "prepare_stats df0 =
     and_then (add_total_yards df0) (\<lambda>df.
     and_then (add_turnovers df) (\<lambda>df.
     and_then (if ''opponent_team'' \<in> set (columns df)
               then rename [(''opponent_team'', ''opponent'')] df else Inr df) (\<lambda>df.
     and_then (if ''passing_interceptions'' \<in> set (columns df)
               then rename [(''passing_interceptions'', ''interceptions'')] df else Inr df) (\<lambda>df.
     and_then (select (filter (\<lambda>c. c \<in> set (columns df)) stats_schema_columns) df) (\<lambda>df.
     cast_int_columns stats_int_cols df)))))"

definition team_prepare_for_upload :: "dataframe \<Rightarrow> string \<Rightarrow> py_error + dataframe" where
  "team_prepare_for_upload df data_type =
     (if data_type = ''schedules'' then prepare_schedules df
      else if data_type = ''rosters'' then prepare_rosters df
      else if data_type = ''info'' then prepare_info df
      else if data_type = ''stats'' then prepare_stats df
      else Inr df)"

subsection \<open>Notions used to state the properties\<close>

text \<open>\<^verbatim>\<open>df[c]\<close>: the cells of the column \<open>c\<close> (no cells when there is no such column).\<close>

definition get_column :: "dataframe \<Rightarrow> string \<Rightarrow> series" where
  "get_column df c = (case map_of df c of None \<Rightarrow> [] | Some s \<Rightarrow> s)"

text \<open>Changing the cells of every column \<open>n\<close> by \<open>g n\<close>.\<close>

definition map_cols :: "(string \<Rightarrow> cell \<Rightarrow> cell) \<Rightarrow> dataframe \<Rightarrow> dataframe" where
  "map_cols g df = map (\<lambda>(n, c). (n, map (g n) c)) df"

text \<open>The numbers of the rows at which a mask holds, in order.\<close>

definition kept_rows :: "bool list \<Rightarrow> nat list" where
  "kept_rows msk = filter (\<lambda>i. msk ! i) [0..<length msk]"

text \<open>The integer that a cell stands for in a sum, a null counting as 0.\<close>

fun cell_int :: "cell \<Rightarrow> int" where
  "cell_int (I32V w) = sint w"
| "cell_int (I64V w) = sint w"
| "cell_int _ = 0"

text \<open>The frame of the columns \<open>names\<close>, and a frame with its columns renamed by \<open>ren\<close>.\<close>

definition select_cols :: "string list \<Rightarrow> dataframe \<Rightarrow> dataframe" where
  "select_cols names df = map (\<lambda>c. (c, get_column df c)) names"

definition rename_cols :: "(string \<Rightarrow> string) \<Rightarrow> dataframe \<Rightarrow> dataframe" where
  "rename_cols ren df = map (\<lambda>(n, c). (ren n, c)) df"

text \<open>The columns of a schema list that a frame has, in the order of the list.\<close>

definition available :: "string list \<Rightarrow> dataframe \<Rightarrow> string list" where
  "available schema df = filter (\<lambda>c. c \<in> set (columns df)) schema"

text \<open>The cast that the loop over an integer column list applies to the column \<open>n\<close>.\<close>

definition int_cast :: "string list \<Rightarrow> string \<Rightarrow> cell \<Rightarrow> cell" where
  "int_cast cs n = (if n \<in> set cs then cast_int32 else id)"

text \<open>
  \<open>rows_of df idx src g out\<close>: every column \<open>c\<close> of \<open>out\<close> holds, in the order of \<open>idx\<close>,
  the cells of the column \<open>src c\<close> of \<open>df\<close> at the rows \<open>idx\<close>, changed by \<open>g c\<close>.
\<close>

definition rows_of ::
  "dataframe \<Rightarrow> nat list \<Rightarrow> (string \<Rightarrow> string) \<Rightarrow> (string \<Rightarrow> cell \<Rightarrow> cell) \<Rightarrow> dataframe \<Rightarrow> bool" where
  "rows_of df idx src g out =
     list_all (\<lambda>c. get_column out c = map (\<lambda>i. g c (get_column df (src c) ! i)) idx) (columns out)"

text \<open>The renaming function of a \<^verbatim>\<open>rename\<close> mapping.\<close>

definition ren_of :: "(string \<times> string) list \<Rightarrow> string \<Rightarrow> string" where
  "ren_of mapping n = (case map_of mapping n of None \<Rightarrow> n | Some n' \<Rightarrow> n')"

text \<open>
  The rows that the filter on the key column \<open>c\<close> keeps: those with a key that is not
  null, in their order (all rows when the table has no such column).
\<close>

definition key_rows :: "string \<Rightarrow> dataframe \<Rightarrow> nat list" where
  "key_rows c df =
     (if c \<in> set (columns df) then filter (\<lambda>i. get_column df c ! i \<noteq> Null) [0..<height df]
      else [0..<height df])"

text \<open>The common end of the mappers: selection of the schema columns, then the casts.\<close>

definition finish :: "string list \<Rightarrow> string list \<Rightarrow> dataframe \<Rightarrow> dataframe" where
  "finish schema ints d = map_cols (int_cast ints) (select_cols (available schema d) d)"

text \<open>The integer that a cell denotes: that of an integer cell, or the one the text spells.\<close>

fun numeric_value :: "cell \<Rightarrow> int option" where
  "numeric_value Null = None"
| "numeric_value (I32V w) = Some (sint w)"
| "numeric_value (I64V w) = Some (sint w)"
| "numeric_value (StrV s) = parse_int s"

text \<open>The input column behind an output column of the player statistics mapper.\<close>

definition player_src :: "dataframe \<Rightarrow> string \<Rightarrow> string" where
  "player_src df c =
     (if player_rename_map df \<noteq> [] \<and> c = ''interceptions'' then ''passing_interceptions'' else c)"

text \<open>The cast of the birth date column to text.\<close>

definition birth_cast :: "string \<Rightarrow> cell \<Rightarrow> cell" where
  "birth_cast n = (if n = ''birth_date'' then cast_utf8 else id)"

text \<open>The input column behind an output column of the roster and the player info mapper.\<close>

definition rosters_src :: "dataframe \<Rightarrow> string \<Rightarrow> string" where
  "rosters_src df c =
     (if ''gsis_id'' \<in> set (columns df) \<and> c = ''player_id'' then ''gsis_id''
      else if ''full_name'' \<in> set (columns df) \<and> c = ''player_name'' then ''full_name''
      else c)"

definition player_info_src :: "dataframe \<Rightarrow> string \<Rightarrow> string" where
  "player_info_src df c =
     (if ''gsis_id'' \<in> set (columns df) \<and> c = ''player_id'' then ''gsis_id''
      else if ''display_name'' \<in> set (columns df) \<and> c = ''player_name'' then ''display_name''
      else c)"

text \<open>Cells of a 32-bit and of a 64-bit integer column (either may hold nulls).\<close>

fun narrow :: "cell \<Rightarrow> bool" where
  "narrow Null = True"
| "narrow (I32V w) = True"
| "narrow _ = False"

fun wide :: "cell \<Rightarrow> bool" where
  "wide Null = True"
| "wide (I64V w) = True"
| "wide _ = False"

text \<open>The cells of the columns \<open>cs\<close> in the row \<open>i\<close>.\<close>

definition row_cells :: "dataframe \<Rightarrow> string list \<Rightarrow> nat \<Rightarrow> cell list" where
  "row_cells df cs i = map (\<lambda>c. get_column df c ! i) cs"

text \<open>The renaming of the team statistics mapper and the columns it derives.\<close>

definition stats_ren :: "string \<Rightarrow> string" where
  "stats_ren n =
     (if n = ''opponent_team'' then ''opponent''
      else if n = ''passing_interceptions'' then ''interceptions'' else n)"

definition derived_cols :: "dataframe \<Rightarrow> string set" where
  "derived_cols df =
     (if ''passing_yards'' \<in> set (columns df) \<and> ''rushing_yards'' \<in> set (columns df)
      then {''total_yards''} else {}) \<union>
     (if turnover_cols df \<noteq> [] then {''turnovers''} else {})"

section \<open>Filtered reader (\<^verbatim>\<open>SupabaseClient.query\<close>)\<close>

text \<open>
  The request that \<^verbatim>\<open>self.client.table(t).select("*")\<close> starts and every
  \<^verbatim>\<open>.eq(column, value)\<close> extends.
\<close>

record select_request =
  table :: string
  eq_filters :: "(string \<times> cell) list"

definition select_all :: "string \<Rightarrow> select_request" where
  "select_all t = \<lparr>table = t, eq_filters = []\<rparr>"

definition eq_filter :: "string \<Rightarrow> cell \<Rightarrow> select_request \<Rightarrow> select_request" where
  "eq_filter column v q = q\<lparr>eq_filters := eq_filters q @ [(column, v)]\<rparr>"

text \<open>
  \<^verbatim>\<open>pl.DataFrame(response.data)\<close>: the frame of a list of row dictionaries with the keys
  of the first row as columns; no rows give the empty frame.
\<close>

definition from_dicts :: "row_dict list \<Rightarrow> dataframe" where
  "from_dicts rows =
     (case rows of
        [] \<Rightarrow> []
      | r # _ \<Rightarrow> map (\<lambda>(k, _). (k, map (\<lambda>r. case map_of r k of None \<Rightarrow> Null | Some v \<Rightarrow> v) rows)) r)"

text \<open>
  \<open>execute\<close> is the round trip to the store: it returns \<^verbatim>\<open>response.data\<close> or raises.
  \<open>filters\<close> is \<open>None\<close> or a dictionary (its items in order); \<^verbatim>\<open>if filters:\<close> is false
  for both \<open>None\<close> and the empty dictionary.
\<close>

definition query ::
  "(select_request \<Rightarrow> py_error + row_dict list) \<Rightarrow> string \<Rightarrow> (string \<times> cell) list option \<Rightarrow>
   py_error + dataframe" where
  "query execute table_name filters =
     (let q0 = select_all table_name;
          q = (case filters of
                 None \<Rightarrow> q0
               | Some fs \<Rightarrow>
                   if fs = [] then q0 else foldl (\<lambda>q (column, v). eq_filter column v q) q0 fs)
      in and_then (execute q) (\<lambda>data. Inr (from_dicts data)))"

text \<open>
  The store is a service outside the program; this is the behaviour the reader relies
  on. A table has column names and rows. A select is answered with the rows that satisfy
  every equality filter, in the table's order; no value equals a null; a request for an
  unknown table or column is rejected. The service returns at most \<open>max_rows\<close> rows for
  one request when that limit is configured, which is why
  \<^verbatim>\<open>scripts/test_passing_leaders.py\<close> reads \<^verbatim>\<open>player_stats\<close> page by page.
\<close>

record store =
  tables :: "(string \<times> string list \<times> row_dict list) list"
  max_rows :: "nat option"

definition matches :: "row_dict \<Rightarrow> string \<times> cell \<Rightarrow> bool" where
  "matches r f = (case f of (c, v) \<Rightarrow> v \<noteq> Null \<and> map_of r c = Some v)"

definition capped :: "store \<Rightarrow> row_dict list \<Rightarrow> row_dict list" where
  "capped st rows = (case max_rows st of None \<Rightarrow> rows | Some n \<Rightarrow> take n rows)"

definition store_execute :: "store \<Rightarrow> select_request \<Rightarrow> py_error + row_dict list" where
  "store_execute st q =
     (case map_of (tables st) (table q) of
        None \<Rightarrow> Inl APIError
      | Some (cols, rows) \<Rightarrow>
          if \<not> list_all (\<lambda>(c, v). c \<in> set cols) (eq_filters q) then Inl APIError
          else Inr (capped st (filter (\<lambda>r. list_all (matches r) (eq_filters q)) rows)))"

section \<open>Properties of the table operations\<close>

lemma and_then_simps [simp]:
  "and_then (Inr x) f = f x" "and_then (Inl e) f = Inl e"
  by (simp_all add: and_then_def)

lemma and_then_eq_Inr: "and_then r f = Inr y \<longleftrightarrow> (\<exists>x. r = Inr x \<and> f x = Inr y)"
  by (cases r) simp_all

subsection \<open>Columns and cells of the results\<close>

lemma map_of_columns:
  "c \<in> set (columns df) \<Longrightarrow> \<exists>s. map_of df c = Some s"
proof -
  assume "c \<in> set (columns df)"
  then have "c \<in> fst ` set df" by (simp add: columns_def)
  then have "map_of df c \<noteq> None" by (simp only: map_of_eq_None_iff not_not)
  then show ?thesis by blast
qed

lemma get_column_mem:
  "distinct (columns df) \<Longrightarrow> (n, s) \<in> set df \<Longrightarrow> get_column df n = s"
proof -
  assume "distinct (columns df)" and "(n, s) \<in> set df"
  then have "map_of df n = Some s" by (intro map_of_is_SomeI) (simp_all add: columns_def)
  then show ?thesis by (simp add: get_column_def)
qed

lemma get_column_mem':
  "c \<in> set (columns df) \<Longrightarrow> (c, get_column df c) \<in> set df"
proof -
  assume "c \<in> set (columns df)"
  then obtain s where m: "map_of df c = Some s" using map_of_columns by blast
  then have "(c, s) \<in> set df" by (rule map_of_SomeD)
  with m show ?thesis by (simp add: get_column_def)
qed

lemma col_eq: "c \<in> set (columns df) \<Longrightarrow> col c df = Inr (get_column df c)"
proof -
  assume "c \<in> set (columns df)"
  then obtain s where "map_of df c = Some s" using map_of_columns by blast
  then show ?thesis by (simp add: get_column_def col_def)
qed

lemma col_Inr: "col c df = Inr s \<Longrightarrow> c \<in> set (columns df) \<and> s = get_column df c"
proof -
  assume "col c df = Inr s"
  then have m: "map_of df c = Some s" by (simp add: col_def split: option.splits)
  then have "(c, s) \<in> set df" by (rule map_of_SomeD)
  then have "c \<in> fst ` set df" by force
  with m show ?thesis by (simp add: get_column_def columns_def)
qed

lemma columns_map_cols [simp]: "columns (map_cols g df) = columns df"
  by (induction df) (auto simp: columns_def map_cols_def)

lemma height_map_cols [simp]: "height (map_cols g df) = height df"
  by (cases df) (auto simp: height_def map_cols_def)

lemma get_column_map_cols [simp]: "get_column (map_cols g df) c = map (g c) (get_column df c)"
  by (induction df) (auto simp: get_column_def map_cols_def)

lemma wf_map_cols: "wf_df df \<Longrightarrow> wf_df (map_cols g df)"
  unfolding wf_df_def by (simp add: list_all_iff) (force simp: map_cols_def)

lemma map_cols_comp: "map_cols g (map_cols h df) = map_cols (\<lambda>n. g n \<circ> h n) df"
  by (simp add: map_cols_def o_def split_def)

lemma map_cols_cong:
  "(\<And>n s v. (n, s) \<in> set df \<Longrightarrow> v \<in> set s \<Longrightarrow> g n v = h n v) \<Longrightarrow> map_cols g df = map_cols h df"
  by (auto simp: map_cols_def)

lemma map_cols_id: "(\<And>n s v. (n, s) \<in> set df \<Longrightarrow> v \<in> set s \<Longrightarrow> g n v = v) \<Longrightarrow> map_cols g df = df"
  unfolding map_cols_def by (rule map_idI) (auto intro!: map_idI)

lemma columns_filter_rows [simp]: "columns (filter_rows m df) = columns df"
  by (induction df) (auto simp: columns_def filter_rows_def)

lemma get_column_filter_rows [simp]:
  "c \<in> set (columns df) \<Longrightarrow> get_column (filter_rows m df) c = keep m (get_column df c)"
  by (induction df) (auto simp: get_column_def filter_rows_def columns_def)

lemma columns_take_rows [simp]: "columns (take_rows p df) = columns df"
  by (induction df) (auto simp: columns_def take_rows_def)

lemma get_column_take_rows [simp]:
  "c \<in> set (columns df) \<Longrightarrow> get_column (take_rows p df) c = map (\<lambda>i. get_column df c ! i) p"
  by (induction df) (auto simp: get_column_def take_rows_def columns_def)

lemma zip_nth_upt:
  "length m = length s \<Longrightarrow> zip m s = map (\<lambda>i. (m ! i, s ! i)) [0..<length m]"
  by (rule nth_equalityI) auto

lemma keep_kept_rows:
  "length m = length s \<Longrightarrow> keep m s = map (\<lambda>i. s ! i) (kept_rows m)"
  by (simp add: keep_def kept_rows_def zip_nth_upt filter_map o_def)

lemma kept_rows_bound: "i \<in> set (kept_rows m) \<Longrightarrow> i < length m"
  by (simp add: kept_rows_def)

lemma length_keep: "length m = length s \<Longrightarrow> length (keep m s) = length (filter id m)"
proof (induction m s rule: list_induct2)
  case Nil then show ?case by (simp add: keep_def)
next
  case (Cons b m x s) then show ?case by (simp add: keep_def)
qed

lemma keep_all: "length m = length s \<Longrightarrow> \<forall>b \<in> set m. b \<Longrightarrow> keep m s = s"
  by (induction m s rule: list_induct2) (auto simp: keep_def)

lemma keep_map: "keep m (map f s) = map f (keep m s)"
  by (simp add: keep_def zip_map2 filter_map o_def split_def)

lemma keep_not_null: "keep (map (\<lambda>v. v \<noteq> Null) s) s = filter (\<lambda>v. v \<noteq> Null) s"
  by (induction s) (auto simp: keep_def)

lemma cast_int32_idem [simp]: "cast_int32 (cast_int32 v) = cast_int32 v"
  by (cases v) (auto split: option.splits)

lemma cast_utf8_idem [simp]: "cast_utf8 (cast_utf8 v) = cast_utf8 v"
  by (cases v) auto

lemma with_column_replace:
  assumes "distinct (columns df)" and "c \<in> set (columns df)"
  shows "with_column c (map f (get_column df c)) df = map_cols (\<lambda>n. if n = c then f else id) df"
proof -
  have "map (\<lambda>(n, x). if n = c then (n, map f (get_column df c)) else (n, x)) df
      = map (\<lambda>(n, x). (n, map (if n = c then f else id) x)) df"
  proof (rule map_cong [OF refl])
    fix p assume p: "p \<in> set df"
    obtain n x where nx: "p = (n, x)" by (cases p)
    with p assms(1) have "get_column df n = x" by (simp add: get_column_mem)
    with nx show "(case p of (n, x) \<Rightarrow> if n = c then (n, map f (get_column df c)) else (n, x))
        = (case p of (n, x) \<Rightarrow> (n, map (if n = c then f else id) x))" by auto
  qed
  with assms(2) show ?thesis by (simp add: with_column_def map_cols_def)
qed

lemma cast_column_eq:
  "distinct (columns df) \<Longrightarrow> c \<in> set (columns df) \<Longrightarrow>
   cast_column f c df = Inr (map_cols (\<lambda>n. if n = c then f else id) df)"
  by (simp add: cast_column_def col_eq with_column_replace)

lemma cast_int_columns_eq:
  "distinct (columns df) \<Longrightarrow>
   cast_int_columns cs df = Inr (map_cols (\<lambda>n. if n \<in> set cs then cast_int32 else id) df)"
proof (induction cs arbitrary: df)
  case Nil
  have "map_cols (\<lambda>n v. v) df = df" by (rule map_cols_id) simp
  then show ?case by (simp add: id_def)
next
  case (Cons c cs)
  show ?case
  proof (cases "c \<in> set (columns df)")
    case True
    let ?d = "map_cols (\<lambda>n. if n = c then cast_int32 else id) df"
    have d: "distinct (columns ?d)" using Cons.prems by simp
    have "map_cols (\<lambda>n. if n \<in> set cs then cast_int32 else id) ?d
        = map_cols (\<lambda>n. if n \<in> set (c # cs) then cast_int32 else id) df"
      unfolding map_cols_comp by (rule map_cols_cong) auto
    with True Cons.prems Cons.IH [OF d] show ?thesis
      by (simp add: cast_column_eq)
  next
    case False
    have "map_cols (\<lambda>n. if n \<in> set cs then cast_int32 else id) df
        = map_cols (\<lambda>n. if n \<in> set (c # cs) then cast_int32 else id) df"
    proof (rule map_cols_cong)
      fix n s v assume "(n, s) \<in> set df"
      then have "n \<in> set (columns df)" by (force simp: columns_def)
      with False have "n \<noteq> c" by blast
      then show "(if n \<in> set cs then cast_int32 else id) v
          = (if n \<in> set (c # cs) then cast_int32 else id) v" by simp
    qed
    with False Cons.IH [OF Cons.prems] show ?thesis by simp
  qed
qed

lemma columns_select_cols [simp]: "columns (select_cols names df) = names"
  by (simp add: columns_def select_cols_def o_def)

lemma get_column_select_cols [simp]:
  "c \<in> set names \<Longrightarrow> get_column (select_cols names df) c = get_column df c"
proof -
  assume "c \<in> set names"
  then have "map_of (map (\<lambda>c. (c, get_column df c)) names) c = Some (get_column df c)"
    by (induction names) auto
  then show ?thesis by (simp add: get_column_def select_cols_def)
qed

lemma set_available [simp]: "set (available schema df) = set schema \<inter> set (columns df)"
  by (auto simp: available_def)

lemma select_eq:
  assumes "set names \<subseteq> set (columns df)" and "distinct names"
  shows "select names df = Inr (select_cols names df)"
proof -
  have "map (\<lambda>c. (c, the (map_of df c))) names = map (\<lambda>c. (c, get_column df c)) names"
  proof (rule map_cong [OF refl])
    fix c assume "c \<in> set names"
    with assms(1) obtain s where "map_of df c = Some s" using map_of_columns by blast
    then show "(c, the (map_of df c)) = (c, get_column df c)" by (simp add: get_column_def)
  qed
  with assms show ?thesis by (simp add: select_def select_cols_def list_all_iff subset_iff)
qed

lemma select_available:
  "distinct schema \<Longrightarrow>
   select (filter (\<lambda>c. c \<in> set (columns df)) schema) df = Inr (select_cols (available schema df) df)"
  unfolding available_def by (rule select_eq) auto

lemma height_eq_length:
  "wf_df df \<Longrightarrow> c \<in> set (columns df) \<Longrightarrow> length (get_column df c) = height df"
proof -
  assume w: "wf_df df" and "c \<in> set (columns df)"
  then have "(c, get_column df c) \<in> set df" by (rule_tac get_column_mem')
  with w show ?thesis by (auto simp: wf_df_def list_all_iff)
qed

lemma height_get_column:
  "c \<in> set (columns df) \<Longrightarrow> (\<forall>n \<in> set (columns df). length (get_column df n) = k) \<Longrightarrow> height df = k"
proof -
  assume c: "c \<in> set (columns df)" and a: "\<forall>n \<in> set (columns df). length (get_column df n) = k"
  from c obtain n s rest where df: "df = (n, s) # rest" by (cases df) (auto simp: columns_def)
  then have "get_column df n = s" by (simp add: get_column_def)
  moreover have "n \<in> set (columns df)" using df by (simp add: columns_def)
  ultimately show ?thesis using a df by (auto simp: height_def)
qed

lemma wf_dfI:
  "distinct (columns df) \<Longrightarrow> (\<forall>n \<in> set (columns df). length (get_column df n) = k) \<Longrightarrow> wf_df df"
proof -
  assume d: "distinct (columns df)" and a: "\<forall>n \<in> set (columns df). length (get_column df n) = k"
  have "length s = height df" if "(n, s) \<in> set df" for n s
  proof -
    from that have n: "n \<in> set (columns df)" by (force simp: columns_def)
    from that d have "get_column df n = s" by (rule_tac get_column_mem)
    with a n have "length s = k" by blast
    with height_get_column [OF n a] show ?thesis by simp
  qed
  with d show ?thesis by (auto simp: wf_df_def list_all_iff)
qed

lemma in_columns_iff: "n \<in> set (columns df) \<longleftrightarrow> (\<exists>s. (n, s) \<in> set df)"
  by (force simp: columns_def)

lemma wf_df_length: "wf_df df \<Longrightarrow> (n, s) \<in> set df \<Longrightarrow> length s = height df"
  by (auto simp: wf_df_def list_all_iff)

lemma wf_df_distinct: "wf_df df \<Longrightarrow> distinct (columns df)"
  by (simp add: wf_df_def)

lemma frame_eqI:
  assumes "columns a = columns b"
    and "distinct (columns a)"
    and "\<And>c. c \<in> set (columns a) \<Longrightarrow> get_column a c = get_column b c"
  shows "a = b"
proof (rule nth_equalityI)
  have "length (columns a) = length (columns b)" using assms(1) by simp
  then show l: "length a = length b" by (simp add: columns_def)
  fix i assume i: "i < length a"
  obtain n s where a: "a ! i = (n, s)" by (cases "a ! i")
  obtain n' s' where b: "b ! i = (n', s')" by (cases "b ! i")
  have "columns a ! i = n" "columns b ! i = n'" using a b i l by (simp_all add: columns_def)
  with assms(1) have nn: "n' = n" by simp
  have ma: "(n, s) \<in> set a" using a nth_mem [OF i] by simp
  have ib: "i < length b" using i l by simp
  have mb: "(n, s') \<in> set b" using b nn nth_mem [OF ib] by simp
  have "get_column a n = s" using ma assms(2) by (rule_tac get_column_mem)
  moreover have "get_column b n = s'" using mb assms(1,2) by (rule_tac get_column_mem) simp_all
  moreover have "n \<in> set (columns a)" using ma by (auto simp: in_columns_iff)
  ultimately show "a ! i = b ! i" using assms(3) a b nn by simp
qed

lemma height_take_rows: "df \<noteq> [] \<Longrightarrow> height (take_rows p df) = length p"
  by (cases df) (auto simp: height_def take_rows_def)

lemma height_filter_rows:
  "wf_df df \<Longrightarrow> df \<noteq> [] \<Longrightarrow> length m = height df \<Longrightarrow>
   height (filter_rows m df) = length (filter id m)"
  by (cases df) (auto simp: height_def filter_rows_def wf_df_def length_keep)

lemma wf_take_rows: "distinct (columns df) \<Longrightarrow> wf_df (take_rows p df)"
  by (rule wf_dfI [where k = "length p"]) (simp_all)

lemma wf_filter_rows:
  assumes "wf_df df" and "length m = height df"
  shows "wf_df (filter_rows m df)"
proof (rule wf_dfI [where k = "length (filter id m)"])
  show "distinct (columns (filter_rows m df))" using assms(1) by (simp add: wf_df_def)
  show "\<forall>n\<in>set (columns (filter_rows m df)). length (get_column (filter_rows m df) n) = length (filter id m)"
    using assms by (simp add: length_keep height_eq_length)
qed

lemma wf_select_cols:
  assumes "wf_df df" and "set names \<subseteq> set (columns df)" and "distinct names"
  shows "wf_df (select_cols names df)"
proof (rule wf_dfI [where k = "height df"])
  show "distinct (columns (select_cols names df))" using assms(3) by simp
  show "\<forall>n\<in>set (columns (select_cols names df)). length (get_column (select_cols names df) n) = height df"
    using assms(1,2) by (auto simp: height_eq_length)
qed

lemma height_select_cols:
  "wf_df df \<Longrightarrow> set names \<subseteq> set (columns df) \<Longrightarrow> names \<noteq> [] \<Longrightarrow>
   height (select_cols names df) = height df"
  by (rule height_get_column [where c = "hd names"]) (auto simp: height_eq_length)

lemma filter_rows_get_column:
  "wf_df df \<Longrightarrow> length m = height df \<Longrightarrow> c \<in> set (columns df) \<Longrightarrow>
   get_column (filter_rows m df) c = map (\<lambda>i. get_column df c ! i) (kept_rows m)"
  by (simp add: keep_kept_rows height_eq_length)

lemma first_occ_length [simp]: "length (first_occ seen s) = length s"
  by (induction s arbitrary: seen) auto

lemma keep_first_occ_distinct:
  "distinct (keep (first_occ seen s) s) \<and> set (keep (first_occ seen s) s) \<inter> set seen = {}
   \<and> set (keep (first_occ seen s) s) \<subseteq> set s"
proof (induction s arbitrary: seen)
  case Nil
  then show ?case by (simp add: keep_def)
next
  case (Cons v s)
  have k: "keep (first_occ seen (v # s)) (v # s) =
     (if v \<in> set seen then keep (first_occ (v # seen) s) s else v # keep (first_occ (v # seen) s) s)"
    by (simp add: keep_def)
  from Cons [of "v # seen"] show ?case unfolding k by auto
qed

lemma first_occ_all_distinct:
  "distinct s \<Longrightarrow> set s \<inter> set seen = {} \<Longrightarrow> \<forall>b \<in> set (first_occ seen s). b"
proof (induction s arbitrary: seen)
  case Nil
  then show ?case by simp
next
  case (Cons v s)
  have "set s \<inter> set (v # seen) = {}" using Cons.prems by auto
  with Cons.IH [of "v # seen"] Cons.prems show ?case by auto
qed

lemma sort_upt_set: "sort p = [0..<n] \<Longrightarrow> set p = {..<n} \<and> length p = n \<and> distinct p"
proof -
  assume a: "sort p = [0..<n]"
  have "set (sort p) = set [0..<n]" "length (sort p) = length [0..<n]"
    "distinct (sort p) = distinct [0..<n]"
    by (simp_all only: a)
  then show ?thesis by (simp add: lessThan_atLeast0)
qed

lemma take_rows_all:
  assumes "wf_df df"
  shows "take_rows [0..<height df] df = df"
proof -
  have "map (\<lambda>(n, c). (n, map (\<lambda>i. c ! i) [0..<height df])) df = map (\<lambda>x. x) df"
  proof (rule map_cong [OF refl])
    fix x assume x: "x \<in> set df"
    obtain n c where nc: "x = (n, c)" by (cases x)
    with x assms have "length c = height df" by (simp add: wf_df_length)
    then have "map (\<lambda>i. c ! i) [0..<height df] = map (\<lambda>i. c ! i) [0..<length c]" by simp
    also have "\<dots> = c" by (rule map_nth)
    finally have "map (\<lambda>i. c ! i) [0..<height df] = c" .
    with nc show "(case x of (n, c) \<Rightarrow> (n, map (\<lambda>i. c ! i) [0..<height df])) = x" by simp
  qed
  then show ?thesis by (simp add: take_rows_def)
qed

lemma cast_int_columns_cast:
  "distinct (columns df) \<Longrightarrow> cast_int_columns cs df = Inr (map_cols (int_cast cs) df)"
  using cast_int_columns_eq [of df cs] by (simp add: int_cast_def [abs_def])

lemma filter_rows_eq_take_rows:
  assumes "wf_df d" and "length m = height d"
  shows "filter_rows m d = take_rows (kept_rows m) d"
proof -
  have "map (\<lambda>(n, c). (n, keep m c)) d = map (\<lambda>(n, c). (n, map (\<lambda>i. c ! i) (kept_rows m))) d"
  proof (rule map_cong [OF refl])
    fix x assume x: "x \<in> set d"
    obtain n c where nc: "x = (n, c)" by (cases x)
    with x assms have "length m = length c" by (simp add: wf_df_length)
    then have "keep m c = map (\<lambda>i. c ! i) (kept_rows m)" by (rule keep_kept_rows)
    with nc show "(case x of (n, c) \<Rightarrow> (n, keep m c))
        = (case x of (n, c) \<Rightarrow> (n, map (\<lambda>i. c ! i) (kept_rows m)))" by simp
  qed
  then show ?thesis by (simp add: filter_rows_def take_rows_def)
qed

lemma take_rows_comp:
  assumes "\<forall>i \<in> set p. i < length q"
  shows "take_rows p (take_rows q d) = take_rows (map (\<lambda>i. q ! i) p) d"
proof -
  have "map (\<lambda>i. map (\<lambda>j. c ! j) q ! i) p = map (\<lambda>j. c ! j) (map (\<lambda>i. q ! i) p)" for c :: series
    using assms by (simp add: o_def)
  then show ?thesis by (simp add: take_rows_def o_def split_def)
qed

lemma distinct_kept_rows: "distinct (kept_rows m)"
  by (simp add: kept_rows_def)

lemma kept_rows_snoc: "kept_rows (m @ [b]) = kept_rows m @ (if b then [length m] else [])"
proof -
  have "filter (\<lambda>i. (m @ [b]) ! i) [0..<length m] = filter (\<lambda>i. m ! i) [0..<length m]"
    by (rule filter_cong) (simp_all add: nth_append)
  then show ?thesis by (simp add: kept_rows_def)
qed

lemma length_kept_rows: "length (kept_rows m) = length (filter id m)"
  by (induction m rule: rev_induct) (simp_all add: kept_rows_snoc, simp add: kept_rows_def)

lemma distinct_pbp_key_columns: "distinct pbp_key_columns"
  by (simp add: pbp_key_columns_def)

lemma play_id_key: "''play_id'' \<in> set pbp_key_columns" "''play_id'' \<notin> set pbp_int_columns"
  by (simp_all add: pbp_key_columns_def pbp_int_columns_def)

lemma first_occ_covers:
  "set s \<subseteq> set seen \<union> set (keep (first_occ seen s) s)"
proof (induction s arbitrary: seen)
  case Nil
  then show ?case by simp
next
  case (Cons v s)
  have k: "keep (first_occ seen (v # s)) (v # s) =
     (if v \<in> set seen then keep (first_occ (v # seen) s) s else v # keep (first_occ (v # seen) s) s)"
    by (simp add: keep_def)
  from Cons [of "v # seen"] show ?case unfolding k by auto
qed

lemma distinct_map_nth:
  assumes "distinct xs" and "distinct p" and "\<forall>i \<in> set p. i < length xs"
  shows "distinct (map (\<lambda>i. xs ! i) p)"
proof -
  have "inj_on (\<lambda>i. xs ! i) (set p)"
  proof (rule inj_onI)
    fix i j assume "i \<in> set p" "j \<in> set p" "xs ! i = xs ! j"
    with assms(1,3) show "i = j" by (simp add: nth_eq_iff_index_eq)
  qed
  with assms(2) show ?thesis by (simp add: distinct_map)
qed

lemma unique_first_result:
  assumes w: "wf_df d" and c: "c \<in> set (columns d)"
  shows "\<exists>idx. unique_first order c d = Inr (take_rows idx d) \<and> set idx \<subseteq> {..<height d} \<and>
           distinct idx \<and> distinct (map (\<lambda>i. get_column d c ! i) idx) \<and>
           set (map (\<lambda>i. get_column d c ! i) idx) = set (get_column d c)"
proof -
  let ?s = "get_column d c"
  let ?m = "first_occ [] ?s"
  let ?k = "kept_rows ?m"
  let ?d3 = "filter_rows ?m d"
  have ne: "d \<noteq> []" using c by (auto simp: columns_def)
  have ls: "length ?s = height d" using w c by (rule height_eq_length)
  then have lm: "length ?m = height d" by simp
  have d3: "?d3 = take_rows ?k d" using w lm by (rule filter_rows_eq_take_rows)
  have h3: "height ?d3 = length ?k" unfolding d3 using ne by (rule height_take_rows)
  have kb: "set ?k \<subseteq> {..<height d}" using kept_rows_bound [of _ ?m] lm by auto
  have keys: "map (\<lambda>i. ?s ! i) ?k = keep ?m ?s" using ls by (simp add: keep_kept_rows)
  have kd: "distinct (map (\<lambda>i. ?s ! i) ?k)"
    unfolding keys using keep_first_occ_distinct [of "[]" ?s] by simp
  have ks: "set (map (\<lambda>i. ?s ! i) ?k) = set ?s"
  proof
    show "set (map (\<lambda>i. ?s ! i) ?k) \<subseteq> set ?s"
      unfolding keys using keep_first_occ_distinct [of "[]" ?s] by simp
    show "set ?s \<subseteq> set (map (\<lambda>i. ?s ! i) ?k)"
      unfolding keys using first_occ_covers [of ?s "[]"] by simp
  qed
  have u: "unique_first order c d =
      Inr (if sort (order ?d3) = [0..<height ?d3] then take_rows (order ?d3) ?d3 else ?d3)"
    using c by (simp add: unique_first_def col_eq Let_def)
  show ?thesis
  proof (cases "sort (order ?d3) = [0..<height ?d3]")
    case False
    with u d3 kb kd ks distinct_kept_rows [of ?m] show ?thesis
      by (intro exI [of _ ?k]) simp
  next
    case True
    let ?p = "order ?d3"
    from sort_upt_set [OF True] h3
    have p: "set ?p = {..<length ?k}" "distinct ?p" by simp_all
    then have pb: "\<forall>i \<in> set ?p. i < length ?k" by simp
    let ?idx = "map (\<lambda>i. ?k ! i) ?p"
    have e: "take_rows ?p ?d3 = take_rows ?idx d"
      using take_rows_comp [OF pb, of d] d3 by simp
    have si: "set ?idx = set ?k"
    proof -
      have "set ?idx = (\<lambda>i. ?k ! i) ` {..<length ?k}" using p(1) by simp
      also have "\<dots> = set ?k" by (auto simp: set_conv_nth)
      finally show ?thesis .
    qed
    have di: "distinct ?idx"
      using distinct_kept_rows [of ?m] p(2) pb by (rule distinct_map_nth)
    have kk: "map (\<lambda>i. ?s ! i) ?idx = map (\<lambda>i. (map (\<lambda>i. ?s ! i) ?k) ! i) ?p"
      using pb by (simp add: o_def)
    have "distinct (map (\<lambda>i. (map (\<lambda>i. ?s ! i) ?k) ! i) ?p)"
      by (rule distinct_map_nth [OF kd p(2)]) (use pb in simp)
    then have dk: "distinct (map (\<lambda>i. ?s ! i) ?idx)" by (simp only: kk)
    have sk: "set (map (\<lambda>i. ?s ! i) ?idx) = set ?s"
      using si ks by (simp only: set_map)
    from True u e si kb di dk sk show ?thesis
      by (intro exI [of _ ?idx]) simp
  qed
qed

lemma columns_rename_cols [simp]: "columns (rename_cols ren df) = map ren (columns df)"
  by (simp add: columns_def rename_cols_def o_def split_def)

lemma rename_eq:
  "rename mapping df =
     (if \<not> list_all (\<lambda>(old, new). old \<in> set (columns df)) mapping then Inl ColumnNotFoundError
      else if distinct (map (ren_of mapping) (columns df)) then Inr (rename_cols (ren_of mapping) df)
      else Inl DuplicateError)"
proof -
  have "map (\<lambda>(n, c). (case map_of mapping n of None \<Rightarrow> n | Some n' \<Rightarrow> n', c)) df
      = rename_cols (ren_of mapping) df"
    by (simp add: rename_cols_def ren_of_def [abs_def])
  then show ?thesis by (simp add: rename_def Let_def)
qed

lemma get_column_rename_cols:
  assumes "distinct (map ren (columns df))" and "n \<in> set (columns df)"
  shows "get_column (rename_cols ren df) (ren n) = get_column df n"
proof -
  have m: "(n, get_column df n) \<in> set df" using assms(2) by (rule get_column_mem')
  then have "(ren n, get_column df n) \<in> set (rename_cols ren df)"
    by (force simp: rename_cols_def)
  moreover have "distinct (columns (rename_cols ren df))" using assms(1) by simp
  ultimately show ?thesis by (rule_tac get_column_mem)
qed

lemma height_rename_cols [simp]: "height (rename_cols ren df) = height df"
  by (cases df) (auto simp: height_def rename_cols_def)

lemma wf_rename_cols:
  "wf_df df \<Longrightarrow> distinct (map ren (columns df)) \<Longrightarrow> wf_df (rename_cols ren df)"
  unfolding wf_df_def by (simp add: list_all_iff) (force simp: rename_cols_def)

lemma finish_eq:
  assumes "wf_df d" and "distinct schema"
  shows "and_then (select (filter (\<lambda>c. c \<in> set (columns d)) schema) d) (cast_int_columns ints)
         = Inr (finish schema ints d)"
proof -
  have "distinct (columns (select_cols (available schema d) d))"
    using assms(2) by (simp add: available_def)
  then show ?thesis
    using assms(2) by (simp add: select_available cast_int_columns_cast finish_def)
qed

lemma columns_finish [simp]: "columns (finish schema ints d) = available schema d"
  by (simp add: finish_def)

lemma get_column_finish:
  "c \<in> set (available schema d) \<Longrightarrow>
   get_column (finish schema ints d) c = map (int_cast ints c) (get_column d c)"
  by (simp add: finish_def)

lemma wf_finish:
  assumes "wf_df d" and "distinct schema"
  shows "wf_df (finish schema ints d)"
  unfolding finish_def
  by (rule wf_map_cols, rule wf_select_cols [OF assms(1)]) (use assms(2) in \<open>auto simp: available_def\<close>)

lemma height_finish:
  assumes "wf_df d" and "c \<in> set (available schema d)"
  shows "height (finish schema ints d) = height d"
proof -
  have "available schema d \<noteq> []"
  proof
    assume "available schema d = []"
    with assms(2) have "c \<in> set []" by (simp only:)
    then show False by simp
  qed
  moreover have "set (available schema d) \<subseteq> set (columns d)" by auto
  ultimately show ?thesis using assms(1) by (simp add: finish_def height_select_cols)
qed

lemma key_rows_kept:
  "wf_df df \<Longrightarrow> c \<in> set (columns df) \<Longrightarrow>
   kept_rows (map (\<lambda>v. v \<noteq> Null) (get_column df c)) = key_rows c df"
proof -
  assume w: "wf_df df" and c: "c \<in> set (columns df)"
  have l: "length (get_column df c) = height df" using w c by (rule height_eq_length)
  have "filter (\<lambda>i. map (\<lambda>v. v \<noteq> Null) (get_column df c) ! i) [0..<height df]
      = filter (\<lambda>i. get_column df c ! i \<noteq> Null) [0..<height df]"
    by (rule filter_cong) (simp_all add: l)
  with c l show ?thesis by (simp add: kept_rows_def key_rows_def)
qed

lemma key_rows_bound: "set (key_rows c df) \<subseteq> {..<height df}"
  by (auto simp: key_rows_def)

lemma length_key_rows:
  "wf_df df \<Longrightarrow> c \<in> set (columns df) \<Longrightarrow>
   length (key_rows c df) = length (filter (\<lambda>v. v \<noteq> Null) (get_column df c))"
proof -
  assume w: "wf_df df" and c: "c \<in> set (columns df)"
  have "length (key_rows c df) = length (filter id (map (\<lambda>v. v \<noteq> Null) (get_column df c)))"
    using key_rows_kept [OF w c] length_kept_rows [of "map (\<lambda>v. v \<noteq> Null) (get_column df c)"]
    by simp
  then show ?thesis by (simp add: filter_map o_def)
qed

lemma rows_ofI:
  "(\<And>c. c \<in> set (columns out) \<Longrightarrow>
      get_column out c = map (\<lambda>i. g c (get_column df (src c) ! i)) idx) \<Longrightarrow>
   rows_of df idx src g out"
  by (simp add: rows_of_def list_all_iff)

lemma rows_ofD:
  "rows_of df idx src g out \<Longrightarrow> c \<in> set (columns out) \<Longrightarrow>
   get_column out c = map (\<lambda>i. g c (get_column df (src c) ! i)) idx"
  by (simp add: rows_of_def list_all_iff)

lemma drop_nulls_step:
  assumes "wf_df df"
  shows "(if c \<in> set (columns df) then filter_not_null c df else Inr df)
         = Inr (take_rows (key_rows c df) df)"
proof (cases "c \<in> set (columns df)")
  case True
  let ?m = "map (\<lambda>v. v \<noteq> Null) (get_column df c)"
  have "length ?m = height df" using assms True by (simp add: height_eq_length)
  then have "filter_rows ?m df = take_rows (kept_rows ?m) df"
    using assms by (rule_tac filter_rows_eq_take_rows)
  with True assms show ?thesis
    by (simp add: filter_not_null_def col_eq key_rows_kept)
next
  case False
  with assms show ?thesis by (simp add: key_rows_def take_rows_all)
qed

lemma pbp_result:
  assumes w: "wf_df df"
  shows "\<exists>idx. pbp_prepare_for_upload order df
             = Inr (take_rows idx (finish pbp_key_columns pbp_int_columns df)) \<and>
           set idx \<subseteq> {..<height df} \<and> distinct idx \<and>
           (''play_id'' \<notin> set (columns df) \<longrightarrow> idx = [0..<height df]) \<and>
           (''play_id'' \<in> set (columns df) \<longrightarrow>
              distinct (map (\<lambda>i. get_column df ''play_id'' ! i) idx) \<and>
              set (map (\<lambda>i. get_column df ''play_id'' ! i) idx) = set (get_column df ''play_id''))"
proof -
  let ?d2 = "finish pbp_key_columns pbp_int_columns df"
  have w2: "wf_df ?d2" using w distinct_pbp_key_columns by (rule wf_finish)
  have e: "pbp_prepare_for_upload order df =
      (if ''play_id'' \<in> set (columns ?d2) then unique_first order ''play_id'' ?d2 else Inr ?d2)"
    using finish_eq [OF w distinct_pbp_key_columns, of pbp_int_columns]
    by (simp add: pbp_prepare_for_upload_def Let_def and_then_eq_Inr select_available
          distinct_pbp_key_columns cast_int_columns_cast finish_def available_def)
  show ?thesis
  proof (cases "''play_id'' \<in> set (columns df)")
    case False
    have "take_rows [0..<height df] ?d2 = ?d2"
    proof (cases "available pbp_key_columns df = []")
      case True
      then have "?d2 = []" by (simp add: finish_def select_cols_def map_cols_def)
      then show ?thesis by (simp add: take_rows_def)
    next
      case False
      then obtain c where "c \<in> set (available pbp_key_columns df)"
        by (cases "available pbp_key_columns df") auto
      then have "height ?d2 = height df" using w by (rule_tac height_finish)
      with take_rows_all [OF w2] show ?thesis by simp
    qed
    with False e show ?thesis by (intro exI [of _ "[0..<height df]"]) auto
  next
    case True
    then have a: "''play_id'' \<in> set (available pbp_key_columns df)"
      by (simp add: play_id_key)
    then have c2: "''play_id'' \<in> set (columns ?d2)" by simp
    have h2: "height ?d2 = height df" using w a by (rule height_finish)
    have k2: "get_column ?d2 ''play_id'' = get_column df ''play_id''"
      using a by (simp add: get_column_finish int_cast_def play_id_key)
    from unique_first_result [OF w2 c2, of order] e c2 True h2 k2
    show ?thesis by auto
  qed
qed

lemma sint_word_of_int_32: "in_int32 i \<Longrightarrow> sint (word_of_int i :: 32 word) = i"
  by (simp add: in_int32_def sint_sbintrunc' signed_take_bit_int_eq_self)

lemma in_int32_sint [simp]: "in_int32 (sint (w :: 32 word))"
  using sint_ge [of w] sint_lt [of w] by (simp add: in_int32_def)

lemma cast_int32_numeric:
  "cast_int32 v =
     (case numeric_value v of
        None \<Rightarrow> Null
      | Some i \<Rightarrow> if in_int32 i then I32V (word_of_int i) else Null)"
  by (cases v) simp_all

lemma columns_take_rows_wf: "wf_df df \<Longrightarrow> wf_df (take_rows p df)"
  by (rule wf_take_rows) (simp add: wf_df_def)

lemma ren_of_Nil [simp]: "ren_of [] = (\<lambda>n. n)"
  by (simp add: ren_of_def [abs_def])

lemma ren_of_single: "ren_of [(a, b)] = (\<lambda>n. if n = a then b else n)"
  by (auto simp: ren_of_def [abs_def])

lemma rename_cols_id [simp]: "rename_cols (\<lambda>n. n) df = df"
  by (simp add: rename_cols_def)

lemma distinct_ren_single:
  assumes "distinct cols" and "b \<notin> set cols"
  shows "distinct (map (\<lambda>n. if n = a then b else n) cols)"
proof -
  have "inj_on (\<lambda>n. if n = a then b else n) (set cols)"
    using assms(2) by (auto simp: inj_on_def)
  with assms(1) show ?thesis by (simp add: distinct_map)
qed

lemma distinct_player_schema_columns: "distinct player_schema_columns"
  by (simp add: player_schema_columns_def)

lemma player_rename_map_take_rows [simp]:
  "player_rename_map (take_rows p df) = player_rename_map df"
  by (simp add: player_rename_map_def)

lemma distinct_player_ren:
  "distinct (columns df) \<Longrightarrow> distinct (map (ren_of (player_rename_map df)) (columns df))"
  by (simp add: player_rename_map_def ren_of_single distinct_ren_single)

lemma player_result:
  assumes w: "wf_df df"
  shows "player_prepare_for_upload df =
     Inr (finish player_schema_columns player_int_cols
            (rename_cols (ren_of (player_rename_map df))
               (take_rows (key_rows ''player_id'' df) df)))"
proof -
  let ?d1 = "take_rows (key_rows ''player_id'' df) df"
  let ?d2 = "rename_cols (ren_of (player_rename_map df)) ?d1"
  have w1: "wf_df ?d1" using w by (rule columns_take_rows_wf)
  have dr: "distinct (map (ren_of (player_rename_map df)) (columns ?d1))"
    using w by (simp add: distinct_player_ren wf_df_def)
  have r: "(if player_rename_map ?d1 \<noteq> [] then rename (player_rename_map ?d1) ?d1 else Inr ?d1)
      = Inr ?d2"
  proof (cases "player_rename_map df = []")
    case True
    then show ?thesis by simp
  next
    case False
    then have "list_all (\<lambda>(old, new). old \<in> set (columns ?d1)) (player_rename_map df)"
      by (simp add: player_rename_map_def split: if_splits)
    with False dr show ?thesis by (simp add: rename_eq)
  qed
  have w2: "wf_df ?d2" using w1 dr by (rule wf_rename_cols)
  show ?thesis
    unfolding player_prepare_for_upload_def drop_nulls_step [OF w]
    using r finish_eq [OF w2 distinct_player_schema_columns, of player_int_cols]
    by simp
qed

lemma player_src_ren:
  assumes "distinct (columns df)" and "c \<in> set (map (ren_of (player_rename_map df)) (columns df))"
  shows "player_src df c \<in> set (columns df) \<and> ren_of (player_rename_map df) (player_src df c) = c"
  using assms
  by (auto simp: player_src_def player_rename_map_def ren_of_single split: if_splits)

lemma player_rows:
  assumes w: "wf_df df"
  shows "\<exists>out. player_prepare_for_upload df = Inr out \<and>
           rows_of df (key_rows ''player_id'' df) (player_src df) (int_cast player_int_cols) out"
proof -
  let ?K = "key_rows ''player_id'' df"
  let ?d1 = "take_rows ?K df"
  let ?ren = "ren_of (player_rename_map df)"
  let ?d2 = "rename_cols ?ren ?d1"
  let ?out = "finish player_schema_columns player_int_cols ?d2"
  have d: "distinct (columns df)" using w by (simp add: wf_df_def)
  have dr: "distinct (map ?ren (columns ?d1))" using d by (simp add: distinct_player_ren)
  have "rows_of df ?K (player_src df) (int_cast player_int_cols) ?out"
  proof (rule rows_ofI)
    fix c assume "c \<in> set (columns ?out)"
    then have c: "c \<in> set (available player_schema_columns ?d2)" by simp
    then have "c \<in> set (map ?ren (columns df))" by simp
    from player_src_ren [OF d this]
    have s: "player_src df c \<in> set (columns df)" "?ren (player_src df c) = c" by simp_all
    have "get_column ?d2 (?ren (player_src df c)) = get_column ?d1 (player_src df c)"
      using dr s(1) by (intro get_column_rename_cols) simp_all
    then have "get_column ?d2 c = map (\<lambda>i. get_column df (player_src df c) ! i) ?K"
      using s by simp
    with c show "get_column ?out c
        = map (\<lambda>i. int_cast player_int_cols c (get_column df (player_src df c) ! i)) ?K"
      by (simp add: get_column_finish o_def)
  qed
  with player_result [OF w] show ?thesis by blast
qed

lemma pbp_rows:
  assumes w: "wf_df df"
  shows "\<exists>out idx. pbp_prepare_for_upload order df = Inr out \<and> set idx \<subseteq> {..<height df} \<and>
           rows_of df idx (\<lambda>c. c) (int_cast pbp_int_columns) out"
proof -
  let ?d2 = "finish pbp_key_columns pbp_int_columns df"
  from pbp_result [OF w, of order] obtain idx where
    r: "pbp_prepare_for_upload order df = Inr (take_rows idx ?d2)" and b: "set idx \<subseteq> {..<height df}"
    by blast
  have "rows_of df idx (\<lambda>c. c) (int_cast pbp_int_columns) (take_rows idx ?d2)"
  proof (rule rows_ofI)
    fix c assume "c \<in> set (columns (take_rows idx ?d2))"
    then have c: "c \<in> set (available pbp_key_columns df)" by simp
    then have l: "length (get_column df c) = height df" using w by (simp add: height_eq_length)
    have "get_column (take_rows idx ?d2) c
        = map (\<lambda>i. map (int_cast pbp_int_columns c) (get_column df c) ! i) idx"
      using c by (simp add: get_column_finish)
    also have "\<dots> = map (\<lambda>i. int_cast pbp_int_columns c (get_column df c ! i)) idx"
      using b l by (intro map_cong) auto
    finally show "get_column (take_rows idx ?d2) c
        = map (\<lambda>i. int_cast pbp_int_columns c (get_column df c ! i)) idx" .
  qed
  with r b show ?thesis by blast
qed

lemma map_cols_absent:
  assumes "\<And>n. n \<in> set (columns d) \<Longrightarrow> g n = id"
  shows "map_cols g d = d"
proof (rule map_cols_id)
  fix n s v assume "(n, s) \<in> set d"
  then have "n \<in> set (columns d)" by (auto simp: in_columns_iff)
  then show "g n v = v" using assms by simp
qed

lemma birth_step:
  assumes "distinct (columns d)"
  shows "(if ''birth_date'' \<in> set (columns d) then cast_column cast_utf8 ''birth_date'' d else Inr d)
         = Inr (map_cols birth_cast d)"
proof (cases "''birth_date'' \<in> set (columns d)")
  case True
  with assms show ?thesis by (simp add: cast_column_eq birth_cast_def [abs_def])
next
  case False
  have "map_cols birth_cast d = d"
    by (rule map_cols_absent) (use False in \<open>auto simp: birth_cast_def\<close>)
  with False show ?thesis by simp
qed

lemma rosters_rename_map_cols:
  "columns d = columns df \<Longrightarrow> rosters_rename_map d = rosters_rename_map df"
  by (simp add: rosters_rename_map_def)

lemma distinct_rosters_schema_columns: "distinct rosters_schema_columns"
  by (simp add: rosters_schema_columns_def)

lemma rosters_result:
  assumes w: "wf_df df"
  shows "prepare_rosters df =
     (if distinct (map (ren_of (rosters_rename_map df)) (columns df))
      then Inr (finish rosters_schema_columns rosters_int_cols
                  (rename_cols (ren_of (rosters_rename_map df))
                     (map_cols birth_cast (take_rows (key_rows ''gsis_id'' df) df))))
      else Inl DuplicateError)"
proof -
  let ?d1 = "take_rows (key_rows ''gsis_id'' df) df"
  let ?d2 = "map_cols birth_cast ?d1"
  let ?rm = "rosters_rename_map df"
  let ?d3 = "rename_cols (ren_of ?rm) ?d2"
  have w1: "wf_df ?d1" using w by (rule columns_take_rows_wf)
  have d1: "distinct (columns ?d1)" using w by (simp add: wf_df_def)
  have w2: "wf_df ?d2" using w1 by (rule wf_map_cols)
  have rm: "rosters_rename_map ?d2 = ?rm" by (rule rosters_rename_map_cols) simp
  have la: "list_all (\<lambda>(old, new). old \<in> set (columns ?d2)) ?rm"
    by (simp add: rosters_rename_map_def)
  have s12: "and_then (if ''gsis_id'' \<in> set (columns df) then filter_not_null ''gsis_id'' df else Inr df) f
      = f ?d1" for f :: "dataframe \<Rightarrow> py_error + dataframe"
    by (simp only: drop_nulls_step [OF w] and_then_simps)
  have s23: "and_then (if ''birth_date'' \<in> set (columns ?d1)
        then cast_column cast_utf8 ''birth_date'' ?d1 else Inr ?d1) f = f ?d2"
    for f :: "dataframe \<Rightarrow> py_error + dataframe"
    by (simp only: birth_step [OF d1] and_then_simps)
  show ?thesis
  proof (cases "distinct (map (ren_of ?rm) (columns df))")
    case True
    then have dr: "distinct (map (ren_of ?rm) (columns ?d2))" by simp
    have r: "(if rosters_rename_map ?d2 \<noteq> [] then rename (rosters_rename_map ?d2) ?d2 else Inr ?d2)
        = Inr ?d3"
    proof (cases "?rm = []")
      case True
      then show ?thesis by (simp add: rm)
    next
      case False
      with la dr show ?thesis by (simp add: rm rename_eq)
    qed
    have w3: "wf_df ?d3" using w2 dr by (rule wf_rename_cols)
    show ?thesis
      unfolding prepare_rosters_def s12 s23
      using r True finish_eq [OF w3 distinct_rosters_schema_columns, of rosters_int_cols]
      by simp
  next
    case False
    then have ne: "?rm \<noteq> []" by (auto simp: distinct_map wf_df_distinct [OF w])
    have "rename (rosters_rename_map ?d2) ?d2 = Inl DuplicateError"
      using False la by (simp add: rm rename_eq)
    with ne False show ?thesis
      unfolding prepare_rosters_def s12 s23 by (simp add: rm)
  qed
qed

lemma ren_of_rosters:
  "ren_of (rosters_rename_map df) =
     (\<lambda>n. if ''gsis_id'' \<in> set (columns df) \<and> n = ''gsis_id'' then ''player_id''
          else if ''full_name'' \<in> set (columns df) \<and> n = ''full_name'' then ''player_name''
          else n)"
  by (rule ext) (simp add: ren_of_def rosters_rename_map_def)

lemma rosters_src_ren:
  assumes "c \<in> set (map (ren_of (rosters_rename_map df)) (columns df))"
  shows "rosters_src df c \<in> set (columns df) \<and> ren_of (rosters_rename_map df) (rosters_src df c) = c"
proof -
  from assms obtain n where n: "n \<in> set (columns df)" "c = ren_of (rosters_rename_map df) n"
    by auto
  then show ?thesis unfolding ren_of_rosters rosters_src_def by (auto split: if_splits)
qed

lemma rosters_rows:
  assumes w: "wf_df df" and r: "prepare_rosters df = Inr out"
  shows "rows_of df (key_rows ''gsis_id'' df) (rosters_src df)
           (\<lambda>c v. int_cast rosters_int_cols c (birth_cast c v)) out \<and>
         wf_df out \<and>
         columns out = filter (\<lambda>c. c \<in> set (map (ren_of (rosters_rename_map df)) (columns df)))
                         rosters_schema_columns"
proof -
  let ?K = "key_rows ''gsis_id'' df"
  let ?d1 = "take_rows ?K df"
  let ?d2 = "map_cols birth_cast ?d1"
  let ?ren = "ren_of (rosters_rename_map df)"
  let ?d3 = "rename_cols ?ren ?d2"
  let ?out = "finish rosters_schema_columns rosters_int_cols ?d3"
  from r rosters_result [OF w]
  have dr: "distinct (map ?ren (columns df))" and out: "out = ?out"
    by (auto split: if_splits)
  have dr2: "distinct (map ?ren (columns ?d2))" using dr by simp
  have w3: "wf_df ?d3"
    by (rule wf_rename_cols [OF _ dr2], rule wf_map_cols, rule columns_take_rows_wf [OF w])
  have "rows_of df ?K (rosters_src df) (\<lambda>c v. int_cast rosters_int_cols c (birth_cast c v)) ?out"
  proof (rule rows_ofI)
    fix c assume "c \<in> set (columns ?out)"
    then have c: "c \<in> set (available rosters_schema_columns ?d3)" by simp
    then have "c \<in> set (map ?ren (columns df))" by simp
    from rosters_src_ren [OF this]
    have s: "rosters_src df c \<in> set (columns df)" "?ren (rosters_src df c) = c" by simp_all
    have b: "birth_cast (rosters_src df c) = birth_cast c"
      by (simp add: birth_cast_def rosters_src_def)
    have "get_column ?d3 (?ren (rosters_src df c)) = get_column ?d2 (rosters_src df c)"
      using dr2 s(1) by (intro get_column_rename_cols) simp_all
    then have "get_column ?d3 c = map (birth_cast c) (map (\<lambda>i. get_column df (rosters_src df c) ! i) ?K)"
      using s b by simp
    with c show "get_column ?out c
        = map (\<lambda>i. int_cast rosters_int_cols c (birth_cast c (get_column df (rosters_src df c) ! i))) ?K"
      by (simp add: get_column_finish o_def)
  qed
  moreover have "wf_df ?out" using w3 distinct_rosters_schema_columns by (rule wf_finish)
  moreover have "columns ?out = filter (\<lambda>c. c \<in> set (map ?ren (columns df))) rosters_schema_columns"
    by (simp add: available_def)
  ultimately show ?thesis unfolding out by blast
qed

lemma columns_with_column:
  "columns (with_column n s d) = (if n \<in> set (columns d) then columns d else columns d @ [n])"
  by (auto simp: with_column_def columns_def o_def split_def)

lemma get_column_with_column:
  "get_column (with_column n s d) c = (if c = n then s else get_column d c)"
proof (cases "n \<in> set (columns d)")
  case True
  have "map_of (map (\<lambda>(m, x). if m = n then (m, s) else (m, x)) d) c
      = (if c = n then (if n \<in> set (columns d) then Some s else None) else map_of d c)"
    by (induction d) (force simp: columns_def)+
  with True show ?thesis by (simp add: with_column_def get_column_def)
next
  case False
  then have "map_of d n = None" by (simp add: columns_def map_of_eq_None_iff)
  with False show ?thesis
    by (auto simp: with_column_def get_column_def map_add_def split: option.splits)
qed

lemma wf_with_column:
  assumes "wf_df d" and "d \<noteq> []" and "length s = height d"
  shows "wf_df (with_column n s d)"
proof (rule wf_dfI [where k = "height d"])
  show "distinct (columns (with_column n s d))"
    using assms(1) by (simp add: columns_with_column wf_df_def)
  show "\<forall>c\<in>set (columns (with_column n s d)). length (get_column (with_column n s d) c) = height d"
    using assms by (auto simp: columns_with_column get_column_with_column height_eq_length
        split: if_splits)
qed

lemma distinct_player_info_schema_columns: "distinct player_info_schema_columns"
  by (simp add: player_info_schema_columns_def)

lemma take_rows_nonempty: "take_rows p d = [] \<longleftrightarrow> d = []"
  by (simp add: take_rows_def)

lemma rename_cols_absent:
  assumes "\<And>n. n \<in> set (columns d) \<Longrightarrow> ren n = n"
  shows "rename_cols ren d = d"
  unfolding rename_cols_def
proof (rule map_idI)
  fix x assume x: "x \<in> set d"
  obtain n c where nc: "x = (n, c)" by (cases x)
  with x have "n \<in> set (columns d)" by (auto simp: in_columns_iff)
  with assms nc show "(case x of (n, c) \<Rightarrow> (ren n, c)) = x" by simp
qed

lemma and_then_assoc:
  "and_then (and_then r f) g = and_then r (\<lambda>x. and_then (f x) g)"
  by (cases r) simp_all

lemma player_info_tail:
  assumes "wf_df d"
  shows "and_then (select (filter (\<lambda>c. c \<in> set (columns d)) player_info_schema_columns) d)
       (\<lambda>result. and_then (cast_int_columns player_info_int_cols result)
       (\<lambda>result. if ''birth_date'' \<in> set (columns result)
                 then cast_column cast_utf8 ''birth_date'' result else Inr result))
     = Inr (map_cols birth_cast (finish player_info_schema_columns player_info_int_cols d))"
proof -
  let ?g = "\<lambda>result. if ''birth_date'' \<in> set (columns result)
                 then cast_column cast_utf8 ''birth_date'' result else Inr result"
  let ?d4 = "finish player_info_schema_columns player_info_int_cols d"
  have w4: "wf_df ?d4" using assms distinct_player_info_schema_columns by (rule wf_finish)
  have "and_then (select (filter (\<lambda>c. c \<in> set (columns d)) player_info_schema_columns) d)
       (\<lambda>result. and_then (cast_int_columns player_info_int_cols result) ?g)
     = and_then (and_then (select (filter (\<lambda>c. c \<in> set (columns d)) player_info_schema_columns) d)
         (cast_int_columns player_info_int_cols)) ?g"
    by (simp only: and_then_assoc)
  also have "\<dots> = ?g ?d4"
    by (simp only: finish_eq [OF assms distinct_player_info_schema_columns] and_then_simps)
  also have "\<dots> = Inr (map_cols birth_cast ?d4)"
    by (rule birth_step [OF wf_df_distinct [OF w4]])
  finally show ?thesis .
qed

lemma player_info_result:
  assumes w: "wf_df df"
  shows "prepare_player_info_for_upload df =
     (let d1 = take_rows (key_rows ''gsis_id'' df) df;
          d2 = (if ''gsis_id'' \<in> set (columns df)
                then with_column ''player_id'' (get_column d1 ''gsis_id'') d1 else d1)
      in if ''display_name'' \<in> set (columns df) \<and> ''player_name'' \<in> set (columns df)
         then Inl DuplicateError
         else Inr (map_cols birth_cast
                (finish player_info_schema_columns player_info_int_cols
                   (rename_cols (\<lambda>n. if n = ''display_name'' then ''player_name'' else n) d2))))"
proof -
  let ?d1 = "take_rows (key_rows ''gsis_id'' df) df"
  let ?d2 = "if ''gsis_id'' \<in> set (columns df)
                then with_column ''player_id'' (get_column ?d1 ''gsis_id'') ?d1 else ?d1"
  let ?ren = "\<lambda>n. if n = ''display_name'' then ''player_name'' else n"
  let ?d3 = "rename_cols ?ren ?d2"
  let ?d4 = "finish player_info_schema_columns player_info_int_cols ?d3"
  have w1: "wf_df ?d1" using w by (rule columns_take_rows_wf)
  have w2: "wf_df ?d2"
  proof (cases "''gsis_id'' \<in> set (columns df)")
    case True
    then have ne: "?d1 \<noteq> []" by (auto simp: take_rows_nonempty columns_def)
    have "length (get_column ?d1 ''gsis_id'') = height ?d1"
      using w1 True by (intro height_eq_length) simp_all
    with w1 ne True show ?thesis by (simp add: wf_with_column)
  next
    case False
    with w1 show ?thesis by simp
  qed
  have c2: "set (columns ?d2) = set (columns df) \<union>
      (if ''gsis_id'' \<in> set (columns df) then {''player_id''} else {})"
    by (auto simp: columns_with_column)
  have s1: "and_then (if ''gsis_id'' \<in> set (columns df) then filter_not_null ''gsis_id'' df else Inr df) f
      = f ?d1" for f :: "dataframe \<Rightarrow> py_error + dataframe"
    by (simp only: drop_nulls_step [OF w] and_then_simps)
  have s2: "(if ''gsis_id'' \<in> set (columns ?d1)
        then and_then (col ''gsis_id'' ?d1) (\<lambda>s. Inr (with_column ''player_id'' s ?d1))
        else Inr ?d1) = Inr ?d2"
    by (simp add: col_eq)
  have dn: "''display_name'' \<in> set (columns ?d2) \<longleftrightarrow> ''display_name'' \<in> set (columns df)"
    and pn: "''player_name'' \<in> set (columns ?d2) \<longleftrightarrow> ''player_name'' \<in> set (columns df)"
    unfolding c2 by auto
  have s3: "(if ''display_name'' \<in> set (columns ?d2)
        then rename [(''display_name'', ''player_name'')] ?d2 else Inr ?d2)
      = (if ''display_name'' \<in> set (columns df) \<and> ''player_name'' \<in> set (columns df)
         then Inl DuplicateError else Inr ?d3)"
  proof (cases "''display_name'' \<in> set (columns df)")
    case False
    then have nd: "''display_name'' \<notin> set (columns ?d2)" using dn by simp
    have "?d3 = ?d2" by (rule rename_cols_absent) (use nd in auto)
    with False nd show ?thesis by simp
  next
    case True
    have "distinct (map ?ren (columns ?d2)) \<longleftrightarrow> ''player_name'' \<notin> set (columns df)"
    proof
      assume "''player_name'' \<notin> set (columns df)"
      then have "''player_name'' \<notin> set (columns ?d2)" using pn by simp
      with wf_df_distinct [OF w2] show "distinct (map ?ren (columns ?d2))"
        by (rule distinct_ren_single)
    next
      assume d: "distinct (map ?ren (columns ?d2))"
      show "''player_name'' \<notin> set (columns df)"
      proof
        assume "''player_name'' \<in> set (columns df)"
        then have a: "''player_name'' \<in> set (columns ?d2)" using pn by simp
        have b: "''display_name'' \<in> set (columns ?d2)" using True dn by simp
        have "inj_on ?ren (set (columns ?d2))" using d by (simp add: distinct_map)
        from inj_onD [OF this _ a b] show False by simp
      qed
    qed
    with True dn show ?thesis by (simp add: rename_eq ren_of_single)
  qed
  show ?thesis
  proof (cases "''display_name'' \<in> set (columns df) \<and> ''player_name'' \<in> set (columns df)")
    case True
    then have c: "(''display_name'' \<in> set (columns df) \<and> ''player_name'' \<in> set (columns df)) = True"
      by simp
    show ?thesis
      unfolding prepare_player_info_for_upload_def s1 s2 and_then_simps s3 Let_def
      by (simp only: c if_True and_then_simps)
  next
    case False
    have dr: "distinct (map ?ren (columns ?d2))"
    proof (cases "''player_name'' \<in> set (columns df)")
      case True
      with False have "''display_name'' \<notin> set (columns ?d2)" using dn by simp
      then have "map ?ren (columns ?d2) = columns ?d2" by (intro map_idI) auto
      then show ?thesis using wf_df_distinct [OF w2] by simp
    next
      case False
      then have "''player_name'' \<notin> set (columns ?d2)" using pn by simp
      with wf_df_distinct [OF w2] show ?thesis by (rule distinct_ren_single)
    qed
    have w3: "wf_df ?d3" using w2 dr by (rule wf_rename_cols)
    from False
    have c: "(''display_name'' \<in> set (columns df) \<and> ''player_name'' \<in> set (columns df)) = False"
      by simp
    show ?thesis
      unfolding prepare_player_info_for_upload_def s1 s2 and_then_simps s3 Let_def
      by (simp only: c if_False and_then_simps player_info_tail [OF w3])
  qed
qed

lemma rows_of_height:
  assumes "rows_of df idx src g out" and "out \<noteq> []"
  shows "height out = length idx"
proof -
  from assms(2) obtain n s rest where o: "out = (n, s) # rest" by (cases out) auto
  then have "n \<in> set (columns out)" "get_column out n = s"
    by (simp_all add: columns_def get_column_def)
  with rows_ofD [OF assms(1), of n] have "length s = length idx" by simp
  with o show ?thesis by (simp add: height_def)
qed

lemma player_info_rows:
  assumes w: "wf_df df" and r: "prepare_player_info_for_upload df = Inr out"
  shows "rows_of df (key_rows ''gsis_id'' df) (player_info_src df)
           (\<lambda>c v. birth_cast c (int_cast player_info_int_cols c v)) out \<and>
         (''gsis_id'' \<in> set (columns df) \<longrightarrow> ''player_id'' \<in> set (columns out))"
proof -
  let ?K = "key_rows ''gsis_id'' df"
  let ?d1 = "take_rows ?K df"
  let ?d2 = "if ''gsis_id'' \<in> set (columns df)
                then with_column ''player_id'' (get_column ?d1 ''gsis_id'') ?d1 else ?d1"
  let ?ren = "\<lambda>n. if n = ''display_name'' then ''player_name'' else n"
  let ?d3 = "rename_cols ?ren ?d2"
  let ?d4 = "finish player_info_schema_columns player_info_int_cols ?d3"
  let ?out = "map_cols birth_cast ?d4"
  from r player_info_result [OF w]
  have nc: "\<not> (''display_name'' \<in> set (columns df) \<and> ''player_name'' \<in> set (columns df))"
    and out: "out = ?out"
    by (auto simp: Let_def split: if_splits)
  have c2: "set (columns ?d2) = set (columns df) \<union>
      (if ''gsis_id'' \<in> set (columns df) then {''player_id''} else {})"
    by (auto simp: columns_with_column)
  have g2: "get_column ?d2 n = map (\<lambda>i. get_column df
        (if ''gsis_id'' \<in> set (columns df) \<and> n = ''player_id'' then ''gsis_id'' else n) ! i) ?K"
    if "n \<in> set (columns ?d2)" for n
    using that by (auto simp: get_column_with_column columns_with_column split: if_splits)
  have w1: "wf_df ?d1" using w by (rule columns_take_rows_wf)
  have d2: "distinct (columns ?d2)"
    using wf_df_distinct [OF w1] by (auto simp: columns_with_column)
  have dr: "distinct (map ?ren (columns ?d2))"
  proof (cases "''player_name'' \<in> set (columns df)")
    case True
    with nc have "''display_name'' \<notin> set (columns ?d2)" unfolding c2 by auto
    then have "map ?ren (columns ?d2) = columns ?d2" by (intro map_idI) auto
    then show ?thesis using d2 by simp
  next
    case False
    then have "''player_name'' \<notin> set (columns ?d2)" unfolding c2 by auto
    with d2 show ?thesis by (rule distinct_ren_single)
  qed
  have "rows_of df ?K (player_info_src df)
          (\<lambda>c v. birth_cast c (int_cast player_info_int_cols c v)) ?out"
  proof (rule rows_ofI)
    fix c assume "c \<in> set (columns ?out)"
    then have c: "c \<in> set (available player_info_schema_columns ?d3)" by simp
    then have "c \<in> ?ren ` set (columns ?d2)" by simp
    then obtain n where n: "n \<in> set (columns ?d2)" "c = ?ren n" by blast
    have "get_column ?d3 (?ren n) = get_column ?d2 n"
      using dr n(1) by (rule get_column_rename_cols)
    also note g2 [OF n(1)]
    also have "(if ''gsis_id'' \<in> set (columns df) \<and> n = ''player_id'' then ''gsis_id'' else n)
        = player_info_src df c"
      using n nc unfolding c2 player_info_src_def by (auto split: if_splits)
    finally have "get_column ?d3 c = map (\<lambda>i. get_column df (player_info_src df c) ! i) ?K"
      using n(2) by simp
    with c show "get_column ?out c
        = map (\<lambda>i. birth_cast c (int_cast player_info_int_cols c
                 (get_column df (player_info_src df c) ! i))) ?K"
      by (simp add: get_column_finish o_def)
  qed
  moreover have "''player_id'' \<in> set (columns ?out)" if "''gsis_id'' \<in> set (columns df)"
  proof -
    from that have "''player_id'' \<in> set (columns ?d2)" unfolding c2 by simp
    then have "?ren ''player_id'' \<in> ?ren ` set (columns ?d2)" by (rule imageI)
    then show ?thesis by (simp add: player_info_schema_columns_def)
  qed
  ultimately show ?thesis unfolding out by blast
qed

lemma distinct_rosters_ren:
  assumes "distinct (columns df)"
    and "''gsis_id'' \<in> set (columns df) \<longrightarrow> ''player_id'' \<notin> set (columns df)"
    and "\<not> (''full_name'' \<in> set (columns df) \<and> ''player_name'' \<in> set (columns df))"
  shows "distinct (map (ren_of (rosters_rename_map df)) (columns df))"
proof -
  have "inj_on (ren_of (rosters_rename_map df)) (set (columns df))"
    unfolding ren_of_rosters using assms(2,3) by (auto simp: inj_on_def split: if_splits)
  with assms(1) show ?thesis by (simp add: distinct_map)
qed

lemma length_filter_not_null:
  "length (filter (\<lambda>v. v \<noteq> Null) s) + length (filter (\<lambda>v. v = Null) s) = length s"
  by (induction s) auto

lemma sint_word_of_int_64:
  "- (2 ^ 63) \<le> i \<Longrightarrow> i < 2 ^ 63 \<Longrightarrow> sint (word_of_int i :: 64 word) = i"
  by (simp add: sint_sbintrunc' signed_take_bit_int_eq_self)

lemma in_int32_64: "in_int32 i \<Longrightarrow> sint (word_of_int i :: 64 word) = i"
  by (rule sint_word_of_int_64) (simp_all add: in_int32_def)

lemma cast_int32_I64_of_int:
  "in_int32 n \<Longrightarrow> cast_int32 (I64V (word_of_int n)) = I32V (word_of_int n)"
  by (simp add: in_int32_64)

lemma scast_32_64: "(scast (x :: 32 word) :: 64 word) = word_of_int (sint x)"
  by (rule scast_eq)

lemma word_of_int_sint_32: "(word_of_int (sint (w :: 32 word)) :: 32 word) = w"
  by simp

lemma word_of_int_sint_64: "(word_of_int (sint (w :: 64 word)) :: 64 word) = w"
  by simp

lemma in_int32_0: "in_int32 0"
  by (simp add: in_int32_def)

lemma fill_zero_numeric:
  assumes "case a of StrV _ \<Rightarrow> False | _ \<Rightarrow> True"
  shows "fill_zero a = I32V (word_of_int (cell_int a)) \<or> fill_zero a = I64V (word_of_int (cell_int a))"
proof (cases a)
  case Null
  then show ?thesis by simp
next
  case (I32V w)
  then show ?thesis by (simp only: fill_zero.simps cell_int.simps word_of_int_sint_32 simp_thms)
next
  case (I64V w)
  then show ?thesis by (simp only: fill_zero.simps cell_int.simps word_of_int_sint_64 simp_thms)
next
  case (StrV s)
  with assms show ?thesis by simp
qed

lemma add_cells_of_int:
  "add_cells (I32V (word_of_int x)) (I32V (word_of_int y)) = I32V (word_of_int (x + y))"
  "in_int32 x \<Longrightarrow> add_cells (I32V (word_of_int x)) (I64V (word_of_int y)) = I64V (word_of_int (x + y))"
  "in_int32 y \<Longrightarrow> add_cells (I64V (word_of_int x)) (I32V (word_of_int y)) = I64V (word_of_int (x + y))"
  "add_cells (I64V (word_of_int x)) (I64V (word_of_int y)) = I64V (word_of_int (x + y))"
  by (simp_all only: add_cells.simps scast_eq sint_word_of_int_32 wi_hom_add)

lemma add_fill_in_range:
  assumes a: "case a of StrV _ \<Rightarrow> False | _ \<Rightarrow> True"
    and b: "case b of StrV _ \<Rightarrow> False | _ \<Rightarrow> True"
    and r: "in_int32 (cell_int a + cell_int b)"
  shows "cast_int32 (add_cells (fill_zero a) (fill_zero b))
         = I32V (word_of_int (cell_int a + cell_int b))"
proof -
  let ?n = "cell_int a + cell_int b"
  have ia: "fill_zero a = I32V (word_of_int (cell_int a)) \<Longrightarrow> in_int32 (cell_int a)"
    by (cases a) (simp_all add: in_int32_0)
  have ib: "fill_zero b = I32V (word_of_int (cell_int b)) \<Longrightarrow> in_int32 (cell_int b)"
    by (cases b) (simp_all add: in_int32_0)
  have "add_cells (fill_zero a) (fill_zero b) = I32V (word_of_int ?n) \<or>
        add_cells (fill_zero a) (fill_zero b) = I64V (word_of_int ?n)"
    using fill_zero_numeric [OF a] fill_zero_numeric [OF b]
  proof (elim disjE)
    assume f: "fill_zero a = I32V (word_of_int (cell_int a))"
      "fill_zero b = I32V (word_of_int (cell_int b))"
    have "add_cells (fill_zero a) (fill_zero b) = I32V (word_of_int ?n)"
      unfolding f by (rule add_cells_of_int(1))
    then show ?thesis by (rule disjI1)
  next
    assume f: "fill_zero a = I32V (word_of_int (cell_int a))"
      "fill_zero b = I64V (word_of_int (cell_int b))"
    have "add_cells (fill_zero a) (fill_zero b) = I64V (word_of_int ?n)"
      unfolding f by (rule add_cells_of_int(2) [OF ia [OF f(1)]])
    then show ?thesis by (rule disjI2)
  next
    assume f: "fill_zero a = I64V (word_of_int (cell_int a))"
      "fill_zero b = I32V (word_of_int (cell_int b))"
    have "add_cells (fill_zero a) (fill_zero b) = I64V (word_of_int ?n)"
      unfolding f by (rule add_cells_of_int(3) [OF ib [OF f(2)]])
    then show ?thesis by (rule disjI2)
  next
    assume f: "fill_zero a = I64V (word_of_int (cell_int a))"
      "fill_zero b = I64V (word_of_int (cell_int b))"
    have "add_cells (fill_zero a) (fill_zero b) = I64V (word_of_int ?n)"
      unfolding f by (rule add_cells_of_int(4))
    then show ?thesis by (rule disjI2)
  qed
  then show ?thesis
  proof
    assume "add_cells (fill_zero a) (fill_zero b) = I32V (word_of_int ?n)"
    then show ?thesis by (simp only: cast_int32.simps)
  next
    assume "add_cells (fill_zero a) (fill_zero b) = I64V (word_of_int ?n)"
    then show ?thesis by (simp only: cast_int32_I64_of_int [OF r])
  qed
qed

lemma narrow_fill: "narrow c \<Longrightarrow> fill_zero c = I32V (word_of_int (cell_int c))"
proof (cases c)
  case (I32V w)
  then show ?thesis by (simp only: fill_zero.simps cell_int.simps word_of_int_sint_32)
qed simp_all

lemma wide_fill:
  "wide c \<Longrightarrow> (fill_zero c = I32V 0 \<and> cell_int c = 0) \<or>
     fill_zero c = I64V (word_of_int (cell_int c))"
proof (cases c)
  case (I64V w)
  then show ?thesis by (simp only: fill_zero.simps cell_int.simps word_of_int_sint_64 simp_thms)
qed simp_all

lemma fold_narrow:
  "list_all narrow cs \<Longrightarrow>
   foldl add_cells (I32V (word_of_int n)) (map fill_zero cs)
     = I32V (word_of_int (n + sum_list (map cell_int cs)))"
proof (induction cs arbitrary: n)
  case Nil
  then show ?case by simp
next
  case (Cons c cs)
  then have nc: "narrow c" and ns: "list_all narrow cs" by simp_all
  from nc have "fill_zero c = I32V (word_of_int (cell_int c))" by (rule narrow_fill)
  then have "add_cells (I32V (word_of_int n)) (fill_zero c) = I32V (word_of_int (n + cell_int c))"
    by (simp only: add_cells_of_int)
  with Cons.IH [OF ns, of "n + cell_int c"] show ?case
    by (simp only: list.map foldl_Cons sum_list.Cons add.assoc)
qed

lemma fold_wide:
  "list_all wide cs \<Longrightarrow> (acc = I32V 0 \<and> n = 0) \<or> acc = I64V (word_of_int n) \<Longrightarrow>
   (foldl add_cells acc (map fill_zero cs) = I32V 0 \<and> n + sum_list (map cell_int cs) = 0) \<or>
   foldl add_cells acc (map fill_zero cs) = I64V (word_of_int (n + sum_list (map cell_int cs)))"
proof (induction cs arbitrary: acc n)
  case Nil
  then show ?case by simp
next
  case (Cons c cs)
  then have wc: "wide c" and ws: "list_all wide cs" by simp_all
  from wc have c: "(fill_zero c = I32V 0 \<and> cell_int c = 0) \<or>
      fill_zero c = I64V (word_of_int (cell_int c))" by (rule wide_fill)
  have step: "(add_cells acc (fill_zero c) = I32V 0 \<and> n + cell_int c = 0) \<or>
      add_cells acc (fill_zero c) = I64V (word_of_int (n + cell_int c))"
    using c Cons.prems(2)
  proof (elim disjE conjE)
    assume "fill_zero c = I32V 0" "cell_int c = 0" "acc = I32V 0" "n = 0"
    then show ?thesis by simp
  next
    assume "fill_zero c = I32V 0" "cell_int c = 0" "acc = I64V (word_of_int n)"
    then show ?thesis by simp
  next
    assume "fill_zero c = I64V (word_of_int (cell_int c))" "acc = I32V 0" "n = 0"
    then show ?thesis by simp
  next
    assume "fill_zero c = I64V (word_of_int (cell_int c))" "acc = I64V (word_of_int n)"
    then have "add_cells acc (fill_zero c) = I64V (word_of_int (n + cell_int c))"
      by (simp only: add_cells_of_int)
    then show ?thesis by (rule disjI2)
  qed
  from Cons.IH [OF ws step] show ?case
    by (simp only: list.map foldl_Cons sum_list.Cons add.assoc)
qed

lemma sum_cells_uniform:
  assumes u: "list_all narrow (c # cs) \<or> list_all wide (c # cs)"
    and r: "in_int32 (sum_list (map cell_int (c # cs)))"
  shows "cast_int32 (foldl add_cells (fill_zero c) (map fill_zero cs))
         = I32V (word_of_int (sum_list (map cell_int (c # cs))))"
  using u
proof
  assume n: "list_all narrow (c # cs)"
  then have "narrow c" by simp
  then have "fill_zero c = I32V (word_of_int (cell_int c))" by (rule narrow_fill)
  moreover from n have "list_all narrow cs" by simp
  ultimately have "foldl add_cells (fill_zero c) (map fill_zero cs)
      = I32V (word_of_int (cell_int c + sum_list (map cell_int cs)))"
    using fold_narrow [of cs "cell_int c"] by (simp only:)
  then show ?thesis by (simp only: cast_int32.simps list.map sum_list.Cons)
next
  assume w: "list_all wide (c # cs)"
  then have "wide c" by simp
  then have c: "(fill_zero c = I32V 0 \<and> cell_int c = 0) \<or>
      fill_zero c = I64V (word_of_int (cell_int c))" by (rule wide_fill)
  from w have ws: "list_all wide cs" by simp
  let ?n = "cell_int c + sum_list (map cell_int cs)"
  have r': "in_int32 ?n" using r by (simp only: list.map sum_list.Cons)
  from fold_wide [OF ws c]
  have "cast_int32 (foldl add_cells (fill_zero c) (map fill_zero cs)) = I32V (word_of_int ?n)"
  proof
    assume "foldl add_cells (fill_zero c) (map fill_zero cs) = I32V 0 \<and> ?n = 0"
    then show ?thesis by simp
  next
    assume "foldl add_cells (fill_zero c) (map fill_zero cs) = I64V (word_of_int ?n)"
    then show ?thesis by (simp only: cast_int32_I64_of_int [OF r'])
  qed
  then show ?thesis by (simp only: list.map sum_list.Cons)
qed

lemma col_fill_null_0_eq:
  "c \<in> set (columns d) \<Longrightarrow>
   col_fill_null_0 c d =
     (if numeric (get_column d c) then Inr (map fill_zero (get_column d c))
      else Inl InvalidOperationError)"
  by (simp add: col_fill_null_0_def col_eq)

lemma fill_null_0_all_eq:
  "set cs \<subseteq> set (columns d) \<Longrightarrow> list_all (\<lambda>c. numeric (get_column d c)) cs \<Longrightarrow>
   fill_null_0_all cs d = Inr (map (\<lambda>c. map fill_zero (get_column d c)) cs)"
  by (induction cs) (simp_all add: col_fill_null_0_eq)

lemma length_add_series [simp]: "length (add_series a b) = min (length a) (length b)"
  by (simp add: add_series_def)

lemma nth_add_series:
  "i < length a \<Longrightarrow> i < length b \<Longrightarrow> add_series a b ! i = add_cells (a ! i) (b ! i)"
  by (simp add: add_series_def)

lemma length_foldl_add_series:
  "length s = n \<Longrightarrow> \<forall>t \<in> set ss. length t = n \<Longrightarrow> length (foldl add_series s ss) = n"
  by (induction ss arbitrary: s) simp_all

lemma nth_foldl_add_series:
  "i < length s \<Longrightarrow> \<forall>t \<in> set ss. i < length t \<Longrightarrow>
   foldl add_series s ss ! i = foldl add_cells (s ! i) (map (\<lambda>t. t ! i) ss)"
proof (induction ss arbitrary: s)
  case Nil
  then show ?case by simp
next
  case (Cons t ss)
  then have "i < length (add_series s t)" by simp
  with Cons show ?case by (simp add: nth_add_series)
qed

lemma rename_step:
  assumes w: "wf_df d" and n: "\<not> (a \<in> set (columns d) \<and> b \<in> set (columns d))"
  shows "(if a \<in> set (columns d) then rename [(a, b)] d else Inr d)
           = Inr (rename_cols (\<lambda>n. if n = a then b else n) d)"
    and "wf_df (rename_cols (\<lambda>n. if n = a then b else n) d)"
    and "c \<in> set (columns d) \<Longrightarrow> c \<noteq> a \<Longrightarrow>
           get_column (rename_cols (\<lambda>n. if n = a then b else n) d) c = get_column d c"
proof -
  let ?ren = "\<lambda>n. if n = a then b else n"
  have dr: "distinct (map ?ren (columns d))"
  proof (cases "a \<in> set (columns d)")
    case True
    with n have "b \<notin> set (columns d)" by simp
    with wf_df_distinct [OF w] show ?thesis by (rule distinct_ren_single)
  next
    case False
    then have "map ?ren (columns d) = columns d" by (intro map_idI) auto
    with wf_df_distinct [OF w] show ?thesis by simp
  qed
  show "(if a \<in> set (columns d) then rename [(a, b)] d else Inr d) = Inr (rename_cols ?ren d)"
  proof (cases "a \<in> set (columns d)")
    case True
    with dr show ?thesis by (simp add: rename_eq ren_of_single)
  next
    case False
    have "rename_cols ?ren d = d" by (rule rename_cols_absent) (use False in auto)
    with False show ?thesis by simp
  qed
  show "wf_df (rename_cols ?ren d)" using w dr by (rule wf_rename_cols)
  show "get_column (rename_cols ?ren d) c = get_column d c" if "c \<in> set (columns d)" "c \<noteq> a"
    using get_column_rename_cols [OF dr that(1)] that(2) by simp
qed

lemma rename_collision:
  assumes "a \<in> set (columns d)" and "b \<in> set (columns d)" and "a \<noteq> b"
  shows "(if a \<in> set (columns d) then rename [(a, b)] d else Inr d) = Inl DuplicateError"
proof -
  let ?ren = "\<lambda>n. if n = a then b else n"
  have "\<not> inj_on ?ren (set (columns d))"
  proof
    assume "inj_on ?ren (set (columns d))"
    from inj_onD [OF this _ assms(1,2)] assms(3) show False by simp
  qed
  then have "\<not> distinct (map ?ren (columns d))" by (simp add: distinct_map)
  with assms(1) show ?thesis by (simp add: rename_eq ren_of_single)
qed

lemma distinct_stats_schema_columns: "distinct stats_schema_columns"
  by (simp add: stats_schema_columns_def)

lemma turnover_cols_cong:
  "(\<And>c. c \<in> {''passing_interceptions'', ''rushing_fumbles_lost'', ''sack_fumbles_lost''} \<Longrightarrow>
      c \<in> set (columns d) \<longleftrightarrow> c \<in> set (columns df)) \<Longrightarrow>
   turnover_cols d = turnover_cols df"
  by (simp add: turnover_cols_def)

lemma set_turnover_cols:
  "set (turnover_cols df) =
     {''passing_interceptions'', ''rushing_fumbles_lost'', ''sack_fumbles_lost''} \<inter> set (columns df)"
  by (auto simp: turnover_cols_def)

lemma in_ren_cols:
  assumes "c \<in> set (columns d)" and "c \<noteq> a"
  shows "c \<in> set (columns (rename_cols (\<lambda>n. if n = a then b else n) d))"
proof -
  have "(\<lambda>n. if n = a then b else n) c \<in> (\<lambda>n. if n = a then b else n) ` set (columns d)"
    using assms(1) by (rule imageI)
  with assms(2) show ?thesis by simp
qed

lemma in_ren_cols_iff:
  assumes "c \<noteq> a" and "c \<noteq> b"
  shows "c \<in> set (columns (rename_cols (\<lambda>n. if n = a then b else n) d)) \<longleftrightarrow> c \<in> set (columns d)"
  using assms by (auto split: if_splits)

lemma stats_result:
  assumes w: "wf_df df"
    and p: "''passing_yards'' \<in> set (columns df)" and r: "''rushing_yards'' \<in> set (columns df)"
    and np: "numeric (get_column df ''passing_yards'')"
    and nr: "numeric (get_column df ''rushing_yards'')"
    and nt: "list_all (\<lambda>c. numeric (get_column df c)) (turnover_cols df)"
    and c1: "\<not> (''opponent_team'' \<in> set (columns df) \<and> ''opponent'' \<in> set (columns df))"
    and c2: "\<not> (''passing_interceptions'' \<in> set (columns df) \<and> ''interceptions'' \<in> set (columns df))"
  shows "\<exists>out. prepare_stats df = Inr out \<and>
           get_column out ''total_yards'' =
             map cast_int32 (add_series (map fill_zero (get_column df ''passing_yards''))
                               (map fill_zero (get_column df ''rushing_yards''))) \<and>
           (turnover_cols df \<noteq> [] \<longrightarrow>
              get_column out ''turnovers'' =
                map cast_int32
                  (sum_horizontal (map (\<lambda>c. map fill_zero (get_column df c)) (turnover_cols df))))"
proof -
  let ?ty = "add_series (map fill_zero (get_column df ''passing_yards''))
                               (map fill_zero (get_column df ''rushing_yards''))"
  let ?ss = "map (\<lambda>c. map fill_zero (get_column df c)) (turnover_cols df)"
  let ?d1 = "with_column ''total_yards'' ?ty df"
  let ?d2 = "if turnover_cols df \<noteq> [] then with_column ''turnovers'' (sum_horizontal ?ss) ?d1 else ?d1"
  let ?r1 = "\<lambda>n. if n = ''opponent_team'' then ''opponent'' else n"
  let ?r2 = "\<lambda>n. if n = ''passing_interceptions'' then ''interceptions'' else n"
  let ?d3 = "rename_cols ?r1 ?d2"
  let ?d4 = "rename_cols ?r2 ?d3"
  let ?out = "finish stats_schema_columns stats_int_cols ?d4"
  have ne: "df \<noteq> []" using p by (auto simp: columns_def)
  have lp: "length (get_column df ''passing_yards'') = height df" using w p by (rule height_eq_length)
  have lr: "length (get_column df ''rushing_yards'') = height df" using w r by (rule height_eq_length)
  have s1: "add_total_yards df = Inr ?d1"
    using p r np nr by (simp add: add_total_yards_def col_fill_null_0_eq)
  have w1: "wf_df ?d1" using w ne by (rule wf_with_column) (simp add: lp lr)
  have cs1: "set (columns ?d1) = insert ''total_yards'' (set (columns df))"
    by (auto simp: columns_with_column)
  have h1: "height ?d1 = height df"
    by (rule height_get_column [of "''passing_yards''"])
       (use p w in \<open>auto simp: cs1 get_column_with_column lp lr height_eq_length\<close>)
  have ne1: "?d1 \<noteq> []" using cs1 by (auto simp: columns_def)
  have t1: "turnover_cols ?d1 = turnover_cols df"
    by (rule turnover_cols_cong) (auto simp: cs1)
  have sub: "set (turnover_cols df) \<subseteq> set (columns ?d1)"
    by (auto simp: set_turnover_cols cs1)
  have g1: "get_column ?d1 c = get_column df c" if "c \<in> set (turnover_cols df)" for c
    using that by (auto simp: get_column_with_column set_turnover_cols)
  have ss1: "map (\<lambda>c. map fill_zero (get_column ?d1 c)) (turnover_cols df) = ?ss"
    by (rule map_cong [OF refl]) (simp add: g1)
  have nt1: "list_all (\<lambda>c. numeric (get_column ?d1 c)) (turnover_cols df)"
    using nt by (simp add: list_all_iff g1)
  have s2: "add_turnovers ?d1 = Inr ?d2"
    using fill_null_0_all_eq [OF sub nt1] by (simp add: add_turnovers_def t1 ss1)
  have lsum: "length (sum_horizontal ?ss) = height df" if "turnover_cols df \<noteq> []"
  proof -
    from that obtain c cs where tc: "turnover_cols df = c # cs" by (cases "turnover_cols df") auto
    have "\<forall>t \<in> set ?ss. length t = height df"
      using w by (auto simp: set_turnover_cols height_eq_length)
    then show ?thesis unfolding tc by (simp add: length_foldl_add_series)
  qed
  have w2: "wf_df ?d2"
  proof (cases "turnover_cols df = []")
    case True
    with w1 show ?thesis by simp
  next
    case False
    have "wf_df (with_column ''turnovers'' (sum_horizontal ?ss) ?d1)"
      using w1 ne1 by (rule wf_with_column) (simp add: lsum [OF False] h1)
    with False show ?thesis by simp
  qed
  have cs2: "set (columns ?d2) = set (columns df) \<union> {''total_yards''} \<union>
      (if turnover_cols df \<noteq> [] then {''turnovers''} else {})"
    using cs1 by (auto simp: columns_with_column)
  have n1: "\<not> (''opponent_team'' \<in> set (columns ?d2) \<and> ''opponent'' \<in> set (columns ?d2))"
    using c1 unfolding cs2 by auto
  note rs1 = rename_step [OF w2 n1]
  have pi3: "''passing_interceptions'' \<in> set (columns ?d3) \<longleftrightarrow>
      ''passing_interceptions'' \<in> set (columns ?d2)"
    by (rule in_ren_cols_iff) simp_all
  have in3: "''interceptions'' \<in> set (columns ?d3) \<longleftrightarrow> ''interceptions'' \<in> set (columns ?d2)"
    by (rule in_ren_cols_iff) simp_all
  have n2: "\<not> (''passing_interceptions'' \<in> set (columns ?d3) \<and> ''interceptions'' \<in> set (columns ?d3))"
    using c2 unfolding pi3 in3 cs2 by auto
  note rs2 = rename_step [OF rs1(2) n2]
  have f: "and_then (select (filter (\<lambda>c. c \<in> set (columns ?d4)) stats_schema_columns) ?d4)
      (cast_int_columns stats_int_cols) = Inr ?out"
    using rs2(2) distinct_stats_schema_columns by (rule finish_eq)
  have res: "prepare_stats df = Inr ?out"
    unfolding prepare_stats_def s1 and_then_simps s2 rs1(1) rs2(1) by (rule f)
  have keep: "get_column ?out c = map cast_int32 (get_column ?d2 c)"
    if c: "c \<in> set (columns ?d2)" "c \<in> set stats_schema_columns" "c \<in> set stats_int_cols"
      "c \<noteq> ''opponent_team''" "c \<noteq> ''passing_interceptions''" for c
  proof -
    have a3: "c \<in> set (columns ?d3)" using c(1,4) by (rule in_ren_cols)
    have "c \<in> set (columns ?d4)" using a3 c(5) by (rule in_ren_cols)
    then have av: "c \<in> set (available stats_schema_columns ?d4)" using c(2) by simp
    have "get_column ?d4 c = get_column ?d3 c" using a3 c(5) by (rule rs2(3))
    also have "\<dots> = get_column ?d2 c" using c(1,4) by (rule rs1(3))
    finally show ?thesis using av c(3) by (simp add: get_column_finish int_cast_def)
  qed
  have mT: "''total_yards'' \<in> set (columns ?d2)" unfolding cs2 by simp
  have mU: "''turnovers'' \<in> set (columns ?d2)" if "turnover_cols df \<noteq> []"
    unfolding cs2 using that by simp
  have "get_column ?out ''total_yards'' = map cast_int32 ?ty"
  proof -
    have "get_column ?out ''total_yards'' = map cast_int32 (get_column ?d2 ''total_yards'')"
      by (rule keep [OF mT]) (simp_all add: stats_schema_columns_def stats_int_cols_def)
    then show ?thesis by (simp add: get_column_with_column)
  qed
  moreover have "get_column ?out ''turnovers'' = map cast_int32 (sum_horizontal ?ss)"
    if "turnover_cols df \<noteq> []"
  proof -
    have "get_column ?out ''turnovers'' = map cast_int32 (get_column ?d2 ''turnovers'')"
      by (rule keep [OF mU [OF that]]) (simp_all add: stats_schema_columns_def stats_int_cols_def)
    then show ?thesis using that by (simp add: get_column_with_column)
  qed
  ultimately show ?thesis using res by blast
qed

lemma select_Inr_columns: "select names d = Inr d' \<Longrightarrow> columns d' = names"
  by (auto simp: select_def columns_def o_def split: if_splits)

lemma cast_column_Inr_columns: "cast_column f c d = Inr d' \<Longrightarrow> columns d' = columns d"
proof -
  assume a: "cast_column f c d = Inr d'"
  then obtain s where s: "col c d = Inr s" and d': "d' = with_column c (map f s) d"
    by (auto simp: cast_column_def and_then_eq_Inr)
  from col_Inr [OF s] have "c \<in> set (columns d)" by simp
  with d' show ?thesis by (simp add: columns_with_column)
qed

lemma cast_int_columns_Inr_columns:
  "cast_int_columns cs d = Inr d' \<Longrightarrow> columns d' = columns d"
proof (induction cs arbitrary: d)
  case Nil
  then show ?case by simp
next
  case (Cons c cs)
  show ?case
  proof (cases "c \<in> set (columns d)")
    case True
    with Cons.prems obtain d1 where
      "cast_column cast_int32 c d = Inr d1" "cast_int_columns cs d1 = Inr d'"
      by (auto simp: and_then_eq_Inr)
    with Cons.IH [of d1] cast_column_Inr_columns [of cast_int32 c d d1] show ?thesis by simp
  next
    case False
    with Cons show ?thesis by simp
  qed
qed

lemma rename_step_Inr_columns:
  assumes "(if a \<in> set (columns d) then rename [(a, b)] d else Inr d) = Inr d'"
  shows "columns d' = map (\<lambda>n. if n = a then b else n) (columns d)"
proof (cases "a \<in> set (columns d)")
  case True
  with assms show ?thesis by (auto simp: rename_eq ren_of_single split: if_splits)
next
  case False
  then have "map (\<lambda>n. if n = a then b else n) (columns d) = columns d" by (intro map_idI) auto
  with False assms show ?thesis by simp
qed

lemma add_total_yards_Inr_columns:
  assumes "add_total_yards d = Inr d'"
  shows "set (columns d') = set (columns d) \<union>
     (if ''passing_yards'' \<in> set (columns d) \<and> ''rushing_yards'' \<in> set (columns d)
      then {''total_yards''} else {})"
  using assms
  by (auto simp: add_total_yards_def and_then_eq_Inr columns_with_column split: if_splits)

lemma add_turnovers_Inr_columns:
  assumes "add_turnovers d = Inr d'"
  shows "set (columns d') = set (columns d) \<union> (if turnover_cols d \<noteq> [] then {''turnovers''} else {})"
  using assms
  by (auto simp: add_turnovers_def and_then_eq_Inr columns_with_column split: if_splits)

lemma stats_columns:
  assumes "prepare_stats df = Inr out"
  shows "set (columns out) = stats_ren ` (set (columns df) \<union> derived_cols df) \<inter> set stats_schema_columns"
proof -
  from assms obtain d1 d2 d3 d4 d5 where
    s1: "add_total_yards df = Inr d1" and s2: "add_turnovers d1 = Inr d2"
    and s3: "(if ''opponent_team'' \<in> set (columns d2)
              then rename [(''opponent_team'', ''opponent'')] d2 else Inr d2) = Inr d3"
    and s4: "(if ''passing_interceptions'' \<in> set (columns d3)
              then rename [(''passing_interceptions'', ''interceptions'')] d3 else Inr d3) = Inr d4"
    and s5: "select (filter (\<lambda>c. c \<in> set (columns d4)) stats_schema_columns) d4 = Inr d5"
    and s6: "cast_int_columns stats_int_cols d5 = Inr out"
    unfolding prepare_stats_def and_then_eq_Inr by blast
  note c1 = add_total_yards_Inr_columns [OF s1]
  have t: "turnover_cols d1 = turnover_cols df"
    by (rule turnover_cols_cong) (auto simp: c1)
  note c2 = add_turnovers_Inr_columns [OF s2, unfolded t]
  have c12: "set (columns d2) = set (columns df) \<union> derived_cols df"
    unfolding c2 c1 derived_cols_def by auto
  note c3 = rename_step_Inr_columns [OF s3]
  note c4 = rename_step_Inr_columns [OF s4]
  have "columns d4 = map stats_ren (columns d2)"
    unfolding c4 c3 by (simp add: stats_ren_def o_def)
  then have "set (columns d4) = stats_ren ` (set (columns df) \<union> derived_cols df)"
    using c12 by simp
  moreover have "columns out = filter (\<lambda>c. c \<in> set (columns d4)) stats_schema_columns"
    using cast_int_columns_Inr_columns [OF s6] select_Inr_columns [OF s5] by simp
  ultimately show ?thesis by auto
qed

section \<open>Properties of the batch uploader\<close>

lemma attempt_all_length: "attempt_all rem s wop tn bs = (rs, s') \<Longrightarrow> length rs = length bs"
  by (induction bs arbitrary: s rs s') (auto split: prod.splits)

lemma upload_loop_attempt:
  "attempt_all rem s wop tn (map (\<lambda>i. take n (drop i recs)) offs) = (rs, s') \<Longrightarrow>
   upload_loop rem wop tn recs n offs (up, errs, s) =
     (up + sizes_where (\<lambda>r. r = None) (map (\<lambda>i. take n (drop i recs)) offs) rs,
      errs @ failures offs rs, s')"
proof (induction offs arbitrary: up errs s rs s')
  case Nil
  then show ?case by (simp add: failures_def sizes_where_def)
next
  case (Cons i offs)
  obtain r s1 where r: "rem s wop tn (take n (drop i recs)) = (r, s1)" by force
  obtain rs1 s2 where a: "attempt_all rem s1 wop tn (map (\<lambda>i. take n (drop i recs)) offs) = (rs1, s2)" by force
  from Cons.prems r a have rs: "rs = r # rs1" and s': "s' = s2" by auto
  show ?case
  proof (cases r)
    case None
    with r a rs s' Cons.IH [OF a] show ?thesis
      by (simp add: failures_def sizes_where_def)
  next
    case (Some e)
    with r a rs s' Cons.IH [OF a] show ?thesis
      by (simp add: failures_def sizes_where_def)
  qed
qed


lemma div_step: "0 < n \<Longrightarrow> 0 < (L::nat) \<Longrightarrow> (L + n - 1) div n = Suc ((L - n + n - 1) div n)"
proof (cases "n \<le> L")
  case True
  assume n: "0 < n" and L: "0 < L"
  from True have e: "L - n + n - 1 = L - 1" by simp
  from L have "L + n - 1 = (L - 1) + n" by simp
  then have "(L + n - 1) div n = ((L - 1) + n) div n" by simp
  also have "\<dots> = Suc ((L - 1) div n)" using n by (simp add: div_add_self2)
  finally show ?thesis using e by simp
next
  case False
  assume n: "0 < n" and L: "0 < L"
  from False have z: "L - n = 0" by simp
  from False L n have "(L + n - 1) div n = 1"
    by (intro div_nat_eqI) simp_all
  with z n show ?thesis by simp
qed

lemma chunks_fuel_index:
  "0 < n \<Longrightarrow> length xs \<le> f \<Longrightarrow>
   chunks_fuel f n xs = map (\<lambda>k. take n (drop (k * n) xs)) [0..<(length xs + n - 1) div n]"
proof (induction f arbitrary: xs)
  case 0
  then show ?case by simp
next
  case (Suc f)
  show ?case
  proof (cases "xs = []")
    case True
    with Suc.prems show ?thesis by simp
  next
    case False
    then have pos: "0 < length xs" by simp
    have len: "length (drop n xs) \<le> f" using Suc.prems pos by simp
    have m: "(length xs + n - 1) div n = Suc ((length (drop n xs) + n - 1) div n)"
      using div_step [OF Suc.prems(1) pos] by simp
    have sh: "map (\<lambda>k. take n (drop (k * n) xs)) [0..<Suc m]
        = take n xs # map (\<lambda>k. take n (drop (k * n) (drop n xs))) [0..<m]" for m
    proof -
      have "[0..<Suc m] = 0 # map Suc [0..<m]"
        by (simp add: upt_conv_Cons map_Suc_upt del: upt_Suc)
      then show ?thesis by (simp add: o_def add.commute del: upt_Suc)
    qed
    from False Suc.IH [OF Suc.prems(1) len] m sh show ?thesis by simp
  qed
qed

lemma chunks_fuel_concat: "0 < n \<Longrightarrow> length xs \<le> f \<Longrightarrow> concat (chunks_fuel f n xs) = xs"
proof (induction f arbitrary: xs)
  case 0 then show ?case by simp
next
  case (Suc f)
  have "length (drop n xs) \<le> f" using Suc.prems by (cases xs) auto
  with Suc show ?case by simp
qed

lemma chunks_fuel_bounds: "0 < n \<Longrightarrow> c \<in> set (chunks_fuel f n xs) \<Longrightarrow> c \<noteq> [] \<and> length c \<le> n"
  by (induction f arbitrary: xs) (auto split: if_splits)


lemma chunks_index:
  "0 < n \<Longrightarrow> chunks n xs = map (\<lambda>k. take n (drop (k * n) xs)) [0..<(length xs + n - 1) div n]"
  by (simp add: chunks_def chunks_fuel_index)

lemma length_to_dicts: "length (to_dicts df) = height df"
  by (simp add: to_dicts_def)

lemma py_range_chunks:
  "0 < n \<Longrightarrow> py_range (length xs) (int n) = Inr offs \<Longrightarrow>
   map (\<lambda>i. take n (drop i xs)) offs = chunks n xs \<and> offs = map (\<lambda>k. k * n) [0..<length (chunks n xs)]"
  by (auto simp: py_range_def chunks_index o_def)

lemma sizes_where_split:
  "length rs = length cs \<Longrightarrow>
   sizes_where P cs rs + sizes_where (\<lambda>r. \<not> P r) cs rs = length (concat cs)"
  unfolding sizes_where_def
  by (induction cs rs rule: list_induct2') (auto simp: length_concat)

lemma length_failures:
  "length offs = length rs \<Longrightarrow> length (failures offs rs) = length (filter (\<lambda>r. r \<noteq> None) rs)"
  unfolding failures_def
  by (induction offs rs rule: list_induct2) (auto split: option.splits)

lemma upload_dataframe_run:
  assumes bs: "1 \<le> batch_size"
    and run: "attempt_all rem s (if upsert then Upsert else Insert) tn
                (chunks (nat batch_size) (to_dicts df)) = (rs, s')"
  shows "upload_dataframe rem s df tn batch_size upsert =
     Inr (\<lparr>total_rows = height df,
           uploaded = sizes_where (\<lambda>r. r = None) (chunks (nat batch_size) (to_dicts df)) rs,
           errors = length (filter (\<lambda>r. r \<noteq> None) rs),
           error_details = failures (map (\<lambda>k. k * nat batch_size) [0..<length rs]) rs\<rparr>, s')"
proof -
  let ?n = "nat batch_size"
  let ?recs = "to_dicts df"
  from bs have n: "0 < ?n" and bn: "batch_size = int ?n" by simp_all
  obtain offs where r: "py_range (height df) batch_size = Inr offs"
    using bs by (auto simp: py_range_def)
  then have "py_range (length ?recs) (int ?n) = Inr offs"
    using bn by (simp add: length_to_dicts)
  note pc = py_range_chunks [OF n this]
  have c: "map (\<lambda>i. take ?n (drop i ?recs)) offs = chunks ?n ?recs"
    by (rule pc [THEN conjunct1])
  have o: "offs = map (\<lambda>k. k * ?n) [0..<length (chunks ?n ?recs)]"
    by (rule pc [THEN conjunct2])
  from run c have run': "attempt_all rem s (if upsert then Upsert else Insert) tn
       (map (\<lambda>i. take ?n (drop i ?recs)) offs) = (rs, s')" by simp
  have len: "length rs = length (chunks ?n ?recs)" using attempt_all_length [OF run] .
  have lo: "length offs = length rs" using o len by simp
  have "upload_loop rem (if upsert then Upsert else Insert) tn ?recs ?n offs (0, [], s) =
     (sizes_where (\<lambda>r. r = None) (chunks ?n ?recs) rs, failures offs rs, s')"
    using upload_loop_attempt [OF run', of 0 "[]"] c by simp
  then show ?thesis
    using r o len length_failures [OF lo] by (simp add: upload_dataframe_def)
qed

text \<open>
  Claim C1. For every table, every \<open>batch_size \<ge> 1\<close> and every behaviour of the store,
  \<open>upload_dataframe\<close> returns a summary; if \<open>rs\<close> are the store's answers to the chunks
  of the rows (consecutive runs of at most \<open>batch_size\<close> rows, in the original order,
  which concatenate to the rows), then \<open>uploaded\<close> plus the sizes of the chunks that
  failed is \<open>total_rows\<close>, the number of rows of the table. With 2500 rows, batch size
  1000 and exactly the second chunk failing, \<open>uploaded = 1500\<close> and \<open>errors = 1\<close>.
\<close>

theorem upload_dataframe_accounting:
  assumes "1 \<le> batch_size"
    and "attempt_all rem s (if upsert then Upsert else Insert) tn
           (chunks (nat batch_size) (to_dicts df)) = (rs, s')"
  shows "\<exists>st. upload_dataframe rem s df tn batch_size upsert = Inr (st, s') \<and>
           total_rows st = height df \<and>
           uploaded st + sizes_where (\<lambda>r. r \<noteq> None) (chunks (nat batch_size) (to_dicts df)) rs
             = total_rows st \<and>
           concat (chunks (nat batch_size) (to_dicts df)) = to_dicts df \<and>
           (\<forall>c \<in> set (chunks (nat batch_size) (to_dicts df)). c \<noteq> [] \<and> length c \<le> nat batch_size) \<and>
           (height df = 2500 \<and> batch_size = 1000 \<and> rs = [None, Some e, None] \<longrightarrow>
              uploaded st = 1500 \<and> errors st = 1)"
proof -
  let ?n = "nat batch_size"
  let ?cs = "chunks ?n (to_dicts df)"
  from assms(1) have n: "0 < ?n" by simp
  have len: "length rs = length ?cs" using attempt_all_length [OF assms(2)] .
  have cc: "concat ?cs = to_dicts df" using n by (simp add: chunks_def chunks_fuel_concat)
  have split: "sizes_where (\<lambda>r. r = None) ?cs rs + sizes_where (\<lambda>r. r \<noteq> None) ?cs rs = height df"
    using sizes_where_split [OF len, of "\<lambda>r. r = None"] cc by (simp add: length_to_dicts)
  have bnd: "\<forall>c \<in> set ?cs. c \<noteq> [] \<and> length c \<le> ?n"
    using chunks_fuel_bounds [OF n] by (auto simp: chunks_def)
  have scen: "uploaded_n = 1500"
    if "height df = 2500" "batch_size = 1000" "rs = [None, Some e, None]"
      "uploaded_n = sizes_where (\<lambda>r. r = None) ?cs rs" for uploaded_n
  proof -
    have "?cs = map (\<lambda>k. take 1000 (drop (k * 1000) (to_dicts df))) [0..<3]"
      using that by (simp add: chunks_index length_to_dicts)
    also have "[0..<3] = [0, 1, 2::nat]" by code_simp
    finally show ?thesis using that by (simp add: sizes_where_def length_to_dicts)
  qed
  show ?thesis
    using upload_dataframe_run [OF assms] split cc bnd scen by auto
qed


theorem upload_dataframe_accounting_witness:
  "(1::int) \<le> 1000 \<and>
   attempt_all (scripted (\<lambda>k. if k = 1 then Some ''timeout'' else None)) 0
     (if True then Upsert else Insert) ''play_by_play''
     (chunks (nat 1000) (to_dicts [(''play_id'', replicate 2500 Null)]))
     = ([None, Some ''timeout'', None], 3) \<and>
   (\<exists>st. upload_dataframe (scripted (\<lambda>k. if k = 1 then Some ''timeout'' else None)) 0
           [(''play_id'', replicate 2500 Null)] ''play_by_play'' 1000 True = Inr (st, 3) \<and>
         total_rows st = 2500 \<and> uploaded st = 1500 \<and> errors st = 1)"
proof -
  let ?df = "[(''play_id'', replicate 2500 Null)]"
  let ?rem = "scripted (\<lambda>k. if k = 1 then Some ''timeout'' else None)"
  have h: "height ?df = 2500" by (simp add: height_def)
  have u: "[0..<3] = [0, 1, 2::nat]" by code_simp
  have c: "chunks (nat 1000) (to_dicts ?df) =
      map (\<lambda>k. take 1000 (drop (k * 1000) (to_dicts ?df))) [0, 1, 2]"
    using h u by (simp add: chunks_index length_to_dicts)
  have a: "attempt_all ?rem 0 (if True then Upsert else Insert) ''play_by_play''
      (chunks (nat 1000) (to_dicts ?df)) = ([None, Some ''timeout'', None], 3)"
    unfolding c by (simp add: scripted_def numeral_3_eq_3)
  have b: "(1::int) \<le> 1000" by simp
  from upload_dataframe_accounting [OF b a, of "''timeout''"] h a
  show ?thesis by auto
qed

text \<open>
  Claim C2. A chunk whose insert or upsert raises does not end the run: for
  \<open>batch_size \<ge> 1\<close> the uploader returns, and the store has then received every chunk
  exactly once, in order (its final state and its answers \<open>rs\<close> are those of
  \<open>attempt_all\<close> on the chunk list). The error list holds, in order, one entry
  (start offset \<open>k * batch_size\<close>, message) for every chunk \<open>k\<close> that failed, and
  \<open>errors\<close> is the number of failed chunks.
\<close>

theorem upload_dataframe_attempts:
  assumes "1 \<le> batch_size"
    and "attempt_all rem s (if upsert then Upsert else Insert) tn
           (chunks (nat batch_size) (to_dicts df)) = (rs, s')"
  shows "\<exists>st. upload_dataframe rem s df tn batch_size upsert = Inr (st, s') \<and>
           error_details st = failures (map (\<lambda>k. k * nat batch_size) [0..<length rs]) rs \<and>
           errors st = length (filter (\<lambda>r. r \<noteq> None) rs) \<and>
           errors st = length (error_details st) \<and>
           length rs = length (chunks (nat batch_size) (to_dicts df))"
  using upload_dataframe_run [OF assms] attempt_all_length [OF assms(2)]
  by (simp add: length_failures)

theorem upload_dataframe_attempts_witness:
  "(1::int) \<le> 2 \<and>
   attempt_all (scripted (\<lambda>k. if k = 1 then Some ''timeout'' else None)) 0
     (if False then Upsert else Insert) ''teams''
     (chunks (nat 2) (to_dicts [(''team_abbr'', [StrV ''KC'', StrV ''SF'', StrV ''GB''])]))
     = ([None, Some ''timeout''], 2) \<and>
   upload_dataframe (scripted (\<lambda>k. if k = 1 then Some ''timeout'' else None)) 0
       [(''team_abbr'', [StrV ''KC'', StrV ''SF'', StrV ''GB''])] ''teams'' 2 False
     = Inr (\<lparr>total_rows = 3, uploaded = 2, errors = 1,
             error_details = [\<lparr>batch = 2, error = ''timeout''\<rparr>]\<rparr>, 2)"
proof -
  let ?df = "[(''team_abbr'', [StrV ''KC'', StrV ''SF'', StrV ''GB''])]"
  let ?rem = "scripted (\<lambda>k. if k = 1 then Some ''timeout'' else None)"
  have h: "height ?df = 3" by (simp add: height_def)
  have u: "[0..<2] = [0, 1::nat]" by code_simp
  have c: "chunks (nat 2) (to_dicts ?df) =
      map (\<lambda>k. take 2 (drop (k * 2) (to_dicts ?df))) [0, 1]"
    using h u by (simp add: chunks_index length_to_dicts)
  have a: "attempt_all ?rem 0 (if False then Upsert else Insert) ''teams''
      (chunks (nat 2) (to_dicts ?df)) = ([None, Some ''timeout''], 2)"
    unfolding c by (simp add: scripted_def numeral_2_eq_2)
  have b: "(1::int) \<le> 2" by simp
  obtain st where st: "upload_dataframe ?rem 0 ?df ''teams'' 2 False = Inr (st, 2)"
      "error_details st = failures (map (\<lambda>k. k * nat 2) [0..<length [None, Some ''timeout'']])
          [None, Some ''timeout'']"
      "errors st = length (filter (\<lambda>r. r \<noteq> None) [None, Some ''timeout''])"
    using upload_dataframe_attempts [OF b a] by blast
  have t: "total_rows st = 3" "uploaded st = 2"
    using st(1) upload_dataframe_run [OF b a] h c
    by (auto simp: sizes_where_def to_dicts_def u)
  have "error_details st = [\<lparr>batch = 2, error = ''timeout''\<rparr>]"
    using st(2) by (simp add: failures_def u)
  moreover have "errors st = 1" using st(3) by simp
  ultimately have "st = \<lparr>total_rows = 3, uploaded = 2, errors = 1,
             error_details = [\<lparr>batch = 2, error = ''timeout''\<rparr>]\<rparr>"
    using t by (cases st) simp
  with st(1) a b show ?thesis by simp
qed

section \<open>Data types outside the four branches\<close>

text \<open>
  Claim C10. \<open>TeamDataLoader.prepare_for_upload\<close> called with a \<open>data_type\<close> other than
  "stats", "rosters", "schedules" and "info" takes none of its branches and returns the
  input table as it is.
\<close>

theorem team_prepare_other_identity:
  "data_type \<notin> {''stats'', ''rosters'', ''schedules'', ''info''} \<Longrightarrow>
   team_prepare_for_upload df data_type = Inr df"
  by (simp add: team_prepare_for_upload_def)

theorem team_prepare_other_identity_witness:
  "''players'' \<notin> {''stats'', ''rosters'', ''schedules'', ''info''} \<and>
   team_prepare_for_upload
     [(''gsis_id'', [Null, StrV ''00-1'']), (''weight'', [StrV ''x'', I64V 5000000000])] ''players''
     = Inr [(''gsis_id'', [Null, StrV ''00-1'']), (''weight'', [StrV ''x'', I64V 5000000000])]"
  using team_prepare_other_identity
    [of "''players''" "[(''gsis_id'', [Null, StrV ''00-1'']), (''weight'', [StrV ''x'', I64V 5000000000])]"]
  by simp

section \<open>The cast to 32-bit integers\<close>



lemma pbp_example:
  "pbp_prepare_for_upload (\<lambda>d. rev [0..<height d])
        [(''play_id'', [I64V 1, I64V 2, I64V 1]),
         (''week'', [StrV ''7'', StrV ''seven'', I64V 3]),
         (''down'', [I64V 5000000000, Null, I32V 2])]
   = Inr [(''play_id'', [I64V 2, I64V 1]), (''week'', [Null, I32V 7]), (''down'', [Null, Null])]"
  by code_simp

section \<open>Rows with a null key\<close>

lemma rosters_keys:
  assumes w: "wf_df df" and g: "''gsis_id'' \<in> set (columns df)"
    and r: "prepare_rosters df = Inr out"
  shows "rows_of df (key_rows ''gsis_id'' df) (rosters_src df)
           (\<lambda>c v. int_cast rosters_int_cols c (birth_cast c v)) out \<and>
         height out = length (filter (\<lambda>v. v \<noteq> Null) (get_column df ''gsis_id''))"
proof -
  note rr = rosters_rows [OF w r]
  have "ren_of (rosters_rename_map df) ''gsis_id'' \<in> ren_of (rosters_rename_map df) ` set (columns df)"
    using g by (rule imageI)
  then have "''player_id'' \<in> set (columns out)"
    using g rr by (simp add: ren_of_rosters rosters_schema_columns_def)
  then have "out \<noteq> []" by (auto simp: columns_def)
  with rr have "height out = length (key_rows ''gsis_id'' df)"
    by (intro rows_of_height) auto
  with rr length_key_rows [OF w g] show ?thesis by simp
qed

lemma player_info_keys:
  assumes w: "wf_df df" and g: "''gsis_id'' \<in> set (columns df)"
    and r: "prepare_player_info_for_upload df = Inr out"
  shows "rows_of df (key_rows ''gsis_id'' df) (player_info_src df)
           (\<lambda>c v. birth_cast c (int_cast player_info_int_cols c v)) out \<and>
         height out = length (filter (\<lambda>v. v \<noteq> Null) (get_column df ''gsis_id''))"
proof -
  note rr = player_info_rows [OF w r]
  with g have "''player_id'' \<in> set (columns out)" by simp
  then have "out \<noteq> []" by (auto simp: columns_def)
  with rr have "height out = length (key_rows ''gsis_id'' df)"
    by (intro rows_of_height) auto
  with rr length_key_rows [OF w g] show ?thesis by simp
qed

lemma player_keys:
  assumes w: "wf_df df" and g: "''player_id'' \<in> set (columns df)"
  shows "\<exists>out. player_prepare_for_upload df = Inr out \<and>
           rows_of df (key_rows ''player_id'' df) (player_src df) (int_cast player_int_cols) out \<and>
           height out = length (filter (\<lambda>v. v \<noteq> Null) (get_column df ''player_id''))"
proof -
  from player_rows [OF w] obtain out where
    o: "player_prepare_for_upload df = Inr out"
       "rows_of df (key_rows ''player_id'' df) (player_src df) (int_cast player_int_cols) out"
    by blast
  have "ren_of (player_rename_map df) ''player_id'' \<in> ren_of (player_rename_map df) ` set (columns df)"
    using g by (rule imageI)
  then have "''player_id'' \<in> set (columns out)"
    using o(1) unfolding player_result [OF w]
    by (auto simp: player_rename_map_def ren_of_single player_schema_columns_def split: if_splits)
  then have "out \<noteq> []" by (auto simp: columns_def)
  with o(2) have "height out = length (key_rows ''player_id'' df)" by (rule rows_of_height)
  with o length_key_rows [OF w g] show ?thesis by auto
qed

text \<open>
  Claim C6. In the roster, the player info and the player statistics mapper the rows
  with a null key (\<open>gsis_id\<close>; \<open>player_id\<close> for player statistics) are removed by a filter
  on the source column, before any column is renamed, and every other row stays, in
  order: each column of the result holds the cells of its source column at exactly the
  rows whose key is not null. So a roster table of 10 rows with one null \<open>gsis_id\<close>
  maps to 9 rows.
\<close>

theorem null_keys_dropped:
  assumes "wf_df df"
  shows "(''gsis_id'' \<in> set (columns df) \<longrightarrow>
            (\<forall>out. team_prepare_for_upload df ''rosters'' = Inr out \<longrightarrow>
               rows_of df (key_rows ''gsis_id'' df) (rosters_src df)
                 (\<lambda>c v. int_cast rosters_int_cols c (birth_cast c v)) out \<and>
               height out = length (filter (\<lambda>v. v \<noteq> Null) (get_column df ''gsis_id'')) \<and>
               (height df = 10 \<and> length (filter (\<lambda>v. v = Null) (get_column df ''gsis_id'')) = 1
                  \<longrightarrow> height out = 9)) \<and>
            (''player_id'' \<notin> set (columns df) \<and>
             \<not> (''full_name'' \<in> set (columns df) \<and> ''player_name'' \<in> set (columns df)) \<longrightarrow>
               (\<exists>out. team_prepare_for_upload df ''rosters'' = Inr out)) \<and>
            (\<forall>out. prepare_player_info_for_upload df = Inr out \<longrightarrow>
               rows_of df (key_rows ''gsis_id'' df) (player_info_src df)
                 (\<lambda>c v. birth_cast c (int_cast player_info_int_cols c v)) out \<and>
               height out = length (filter (\<lambda>v. v \<noteq> Null) (get_column df ''gsis_id''))) \<and>
            (\<not> (''display_name'' \<in> set (columns df) \<and> ''player_name'' \<in> set (columns df)) \<longrightarrow>
               (\<exists>out. prepare_player_info_for_upload df = Inr out))) \<and>
         (''player_id'' \<in> set (columns df) \<longrightarrow>
            (\<exists>out. player_prepare_for_upload df = Inr out \<and>
               rows_of df (key_rows ''player_id'' df) (player_src df) (int_cast player_int_cols) out \<and>
               height out = length (filter (\<lambda>v. v \<noteq> Null) (get_column df ''player_id'')))) \<and>
         (\<forall>c. c \<in> set (columns df) \<longrightarrow>
            key_rows c df = filter (\<lambda>i. get_column df c ! i \<noteq> Null) [0..<height df])"
proof -
  have r: "team_prepare_for_upload df ''rosters'' = prepare_rosters df"
    by (simp add: team_prepare_for_upload_def)
  have a: "rows_of df (key_rows ''gsis_id'' df) (rosters_src df)
                 (\<lambda>c v. int_cast rosters_int_cols c (birth_cast c v)) out \<and>
               height out = length (filter (\<lambda>v. v \<noteq> Null) (get_column df ''gsis_id'')) \<and>
               (height df = 10 \<and> length (filter (\<lambda>v. v = Null) (get_column df ''gsis_id'')) = 1
                  \<longrightarrow> height out = 9)"
    if g: "''gsis_id'' \<in> set (columns df)" and o: "prepare_rosters df = Inr out" for out
  proof -
    note k = rosters_keys [OF assms g o]
    have "length (get_column df ''gsis_id'') = height df" using assms g by (rule height_eq_length)
    with length_filter_not_null [of "get_column df ''gsis_id''"] k show ?thesis by auto
  qed
  have b: "\<exists>out. prepare_rosters df = Inr out"
    if "''player_id'' \<notin> set (columns df)"
      "\<not> (''full_name'' \<in> set (columns df) \<and> ''player_name'' \<in> set (columns df))"
  proof -
    have "distinct (map (ren_of (rosters_rename_map df)) (columns df))"
      using wf_df_distinct [OF assms] that by (intro distinct_rosters_ren) auto
    then show ?thesis by (simp add: rosters_result [OF assms])
  qed
  have c: "\<exists>out. prepare_player_info_for_upload df = Inr out"
    if "\<not> (''display_name'' \<in> set (columns df) \<and> ''player_name'' \<in> set (columns df))"
    using that by (simp add: player_info_result [OF assms] Let_def)
  have d: "\<forall>c. c \<in> set (columns df) \<longrightarrow>
            key_rows c df = filter (\<lambda>i. get_column df c ! i \<noteq> Null) [0..<height df]"
    by (simp add: key_rows_def)
  show ?thesis
    unfolding r
  proof (intro conjI impI allI)
    fix out assume "''gsis_id'' \<in> set (columns df)" "prepare_rosters df = Inr out"
    from a [OF this]
    show "rows_of df (key_rows ''gsis_id'' df) (rosters_src df)
                 (\<lambda>c v. int_cast rosters_int_cols c (birth_cast c v)) out"
      and "height out = length (filter (\<lambda>v. v \<noteq> Null) (get_column df ''gsis_id''))"
      by simp_all
    assume "height df = 10 \<and> length (filter (\<lambda>v. v = Null) (get_column df ''gsis_id'')) = 1"
    with a [OF \<open>''gsis_id'' \<in> set (columns df)\<close> \<open>prepare_rosters df = Inr out\<close>]
    show "height out = 9" by simp
  next
    assume "''player_id'' \<notin> set (columns df) \<and>
             \<not> (''full_name'' \<in> set (columns df) \<and> ''player_name'' \<in> set (columns df))"
    then show "\<exists>out. prepare_rosters df = Inr out" using b by blast
  next
    fix out assume "''gsis_id'' \<in> set (columns df)" "prepare_player_info_for_upload df = Inr out"
    from player_info_keys [OF assms this]
    show "rows_of df (key_rows ''gsis_id'' df) (player_info_src df)
                 (\<lambda>c v. birth_cast c (int_cast player_info_int_cols c v)) out"
      and "height out = length (filter (\<lambda>v. v \<noteq> Null) (get_column df ''gsis_id''))"
      by simp_all
  next
    assume "\<not> (''display_name'' \<in> set (columns df) \<and> ''player_name'' \<in> set (columns df))"
    then show "\<exists>out. prepare_player_info_for_upload df = Inr out" by (rule c)
  next
    assume "''player_id'' \<in> set (columns df)"
    then show "\<exists>out. player_prepare_for_upload df = Inr out \<and>
               rows_of df (key_rows ''player_id'' df) (player_src df) (int_cast player_int_cols) out \<and>
               height out = length (filter (\<lambda>v. v \<noteq> Null) (get_column df ''player_id''))"
      by (rule player_keys [OF assms])
  next
    fix c assume "c \<in> set (columns df)"
    then show "key_rows c df = filter (\<lambda>i. get_column df c ! i \<noteq> Null) [0..<height df]"
      using d by blast
  qed
qed


theorem null_keys_dropped_witness:
  "wf_df
     [(''gsis_id'', [StrV ''00-01'', StrV ''00-02'', StrV ''00-03'', Null, StrV ''00-05'',
                       StrV ''00-06'', StrV ''00-07'', StrV ''00-08'', StrV ''00-09'', StrV ''00-10'']),
         (''jersey_number'', [I64V 1, I64V 2, I64V 3, I64V 4, I64V 5, I64V 6, I64V 7, I64V 8,
                       I64V 9, I64V 10])] \<and>
   (\<exists>out. team_prepare_for_upload
     [(''gsis_id'', [StrV ''00-01'', StrV ''00-02'', StrV ''00-03'', Null, StrV ''00-05'',
                       StrV ''00-06'', StrV ''00-07'', StrV ''00-08'', StrV ''00-09'', StrV ''00-10'']),
         (''jersey_number'', [I64V 1, I64V 2, I64V 3, I64V 4, I64V 5, I64V 6, I64V 7, I64V 8,
                       I64V 9, I64V 10])] ''rosters'' = Inr out \<and> height out = 9 \<and>
     get_column out ''player_id'' =
       [StrV ''00-01'', StrV ''00-02'', StrV ''00-03'', StrV ''00-05'',
        StrV ''00-06'', StrV ''00-07'', StrV ''00-08'', StrV ''00-09'', StrV ''00-10''])"
proof -
  let ?df = "[(''gsis_id'', [StrV ''00-01'', StrV ''00-02'', StrV ''00-03'', Null, StrV ''00-05'',
                    StrV ''00-06'', StrV ''00-07'', StrV ''00-08'', StrV ''00-09'', StrV ''00-10'']),
      (''jersey_number'', [I64V 1, I64V 2, I64V 3, I64V 4, I64V 5, I64V 6, I64V 7, I64V 8,
                    I64V 9, I64V 10])]"
  have w: "wf_df ?df" by code_simp
  have g: "''gsis_id'' \<in> set (columns ?df)" "''player_id'' \<notin> set (columns ?df)"
    "\<not> (''full_name'' \<in> set (columns ?df) \<and> ''player_name'' \<in> set (columns ?df))"
    by code_simp+
  have h: "height ?df = 10 \<and> length (filter (\<lambda>v. v = Null) (get_column ?df ''gsis_id'')) = 1"
    by code_simp
  note t = null_keys_dropped [OF w]
  from t g obtain out where o: "team_prepare_for_upload ?df ''rosters'' = Inr out" by blast
  with t g h have "height out = 9" by blast
  moreover have "team_prepare_for_upload ?df ''rosters'' =
     Inr [(''player_id'', [StrV ''00-01'', StrV ''00-02'', StrV ''00-03'', StrV ''00-05'',
        StrV ''00-06'', StrV ''00-07'', StrV ''00-08'', StrV ''00-09'', StrV ''00-10'']),
          (''jersey_number'', [I32V 1, I32V 2, I32V 3, I32V 5, I32V 6, I32V 7, I32V 8,
                    I32V 9, I32V 10])]"
    by code_simp
  ultimately show ?thesis using w o by (simp add: get_column_def)
qed

section \<open>Derived columns of the team statistics\<close>

lemma numeric_nth:
  "numeric s \<Longrightarrow> i < length s \<Longrightarrow> (case s ! i of StrV _ \<Rightarrow> False | _ \<Rightarrow> True)"
  by (simp add: numeric_def list_all_length)

lemma in_int32_330: "in_int32 (250 + 80)"
  by (simp add: in_int32_def)





section \<open>Renaming onto an existing column\<close>

text \<open>
  Claim C5. The player statistics mapper renames \<open>passing_interceptions\<close> only when the
  table has no \<open>interceptions\<close> column. The team statistics mapper has no such guard: on
  a table with both \<open>opponent_team\<close> and \<open>opponent\<close> its rename raises.
\<close>

theorem team_stats_rename_collision:
  "team_prepare_for_upload
     [(''team'', [StrV ''KC'']), (''opponent_team'', [StrV ''SF'']), (''opponent'', [StrV ''SF''])]
     ''stats'' = Inl DuplicateError"
  by code_simp

lemma team_stats_interceptions_collision:
  "team_prepare_for_upload
     [(''team'', [StrV ''KC'']), (''passing_interceptions'', [I64V 1]), (''interceptions'', [I64V 1])]
     ''stats'' = Inl DuplicateError"
  by code_simp

lemma player_rename_guarded:
  "player_prepare_for_upload
     [(''player_id'', [StrV ''00-1'']), (''passing_interceptions'', [I64V 1]),
      (''interceptions'', [I64V 2])]
   = Inr [(''player_id'', [StrV ''00-1'']), (''interceptions'', [I32V 2])]"
  by code_simp

section \<open>Columns of the mapped tables\<close>

lemma distinct_info_schema_columns: "distinct info_schema_columns"
  by (simp add: info_schema_columns_def)

lemma info_result:
  "wf_df df \<Longrightarrow> prepare_info df = Inr (select_cols (available info_schema_columns df) df)"
  by (simp add: prepare_info_def select_available distinct_info_schema_columns)

lemma schedules_columns:
  assumes "prepare_schedules df = Inr out"
  shows "columns out = map (\<lambda>n. if n = ''gameday'' then ''game_date'' else n)
                         (filter (\<lambda>c. c \<in> set (columns df)) schedules_schema_columns)"
proof -
  from assms obtain d1 d2 where
    s1: "select (filter (\<lambda>c. c \<in> set (columns df)) schedules_schema_columns) df = Inr d1"
    and s2: "(if ''gameday'' \<in> set (columns d1) then rename [(''gameday'', ''game_date'')] d1
              else Inr d1) = Inr d2"
    and s3: "cast_int_columns schedules_int_cols d2 = Inr out"
    unfolding prepare_schedules_def and_then_eq_Inr by blast
  from cast_int_columns_Inr_columns [OF s3] rename_step_Inr_columns [OF s2]
    select_Inr_columns [OF s1]
  show ?thesis by simp
qed

lemma set_columns_finish: "set (columns (finish S I d)) = set (columns d) \<inter> set S"
  by (simp add: Int_commute)

lemma set_columns_select_cols: "set (columns (select_cols (available S d) d)) = set (columns d) \<inter> set S"
  by (simp add: Int_commute)




end
